theory Spec2Isabelle
  imports Complex_Main "HOL-Library.Multiset"
begin

section \<open>The BI cube ETL (\<^verbatim>\<open>src/etl/build_bi_cube.py\<close>)\<close>

text \<open>
  The script builds a lazy dataframe plan over a CSV file and writes the aggregated
  cube to a Parquet file. The embedding follows the script stage by stage. A frame is
  the list of its rows, a null is \<open>None\<close>, and an exception is the \<open>Inl\<close> of a sum.

  What the dataframe engine does with each expression is taken from its documented
  behaviour and is written at the definition concerned. Two things are outside the
  model and are said here once:
  \<^item> Amounts are \<open>Float32\<close> in the script. A finite \<open>Float32\<close> value is a rational, so
    amounts live in a field \<open>'a\<close> (the rationals in every evaluated example) and the
    text-to-float parser is a parameter \<open>parse\<close>. The engine's sum and mean round:
    they are parameters of \<open>agg_with\<close>, and \<open>f32_round\<close> gives the rounding itself.
    \<open>agg\<close> is the instance with the exact sum and the exact mean; the properties
    stated of it hold of the script up to that rounding, and conservation of amount
    is stated with the rounding. \<open>NaN\<close> and the infinities are outside the model.
  \<^item> The order in which the engine emits groups is unspecified. \<open>group_by\<close> below
    emits them by first appearance; the theorems speak of the set of cube rows, of
    sums over them, or of every row, so none depends on that order.
\<close>

subsection \<open>Exceptions\<close>

datatype error =
    ValidationError        \<comment> \<open>pydantic: a field value outside its declared type\<close>
  | InvalidOperationError  \<comment> \<open>the engine: a strict cast met a value it cannot convert\<close>
  | SinkUnsupported        \<comment> \<open>the engine: the plan cannot run on the streaming sink\<close>
  | FileNotFoundError      \<comment> \<open>the input file does not exist\<close>

definition and_then :: "error + 'x \<Rightarrow> ('x \<Rightarrow> error + 'y) \<Rightarrow> error + 'y" where
  "and_then m f = (case m of Inl e \<Rightarrow> Inl e | Inr x \<Rightarrow> f x)"

subsection \<open>\<^verbatim>\<open>ETLConfig\<close> (lines 32-40)\<close>

text \<open>
  \<^verbatim>\<open>compression: Literal["zstd", "snappy", "lz4"]\<close> is a three-valued type; pydantic
  validates the keyword argument against the three literals when the object is built,
  and raises \<^verbatim>\<open>ValidationError\<close> otherwise. A keyword that is not given takes the
  field's default.
\<close>

datatype compression = Zstd | Snappy | Lz4

record ETLConfig =
  input_file :: string
  output_cube :: string
  output_summaries_dir :: string
  compression :: compression
  streaming :: bool

record kwargs =
  kw_input_file :: "string option"
  kw_output_cube :: "string option"
  kw_output_summaries_dir :: "string option"
  kw_compression :: "string option"
  kw_streaming :: "bool option"

definition validate_compression :: "string \<Rightarrow> error + compression" where
  "validate_compression s =
     (if s = ''zstd'' then Inr Zstd
      else if s = ''snappy'' then Inr Snappy
      else if s = ''lz4'' then Inr Lz4
      else Inl ValidationError)"

definition ETLConfig_init :: "kwargs \<Rightarrow> error + ETLConfig" where
  "ETLConfig_init kw =
     and_then (case kw_compression kw of None \<Rightarrow> Inr Zstd | Some s \<Rightarrow> validate_compression s)
       (\<lambda>c. Inr \<lparr> input_file = (case kw_input_file kw of None \<Rightarrow> ''data/credit_card.csv'' | Some p \<Rightarrow> p),
                  output_cube = (case kw_output_cube kw of None \<Rightarrow> ''data/bi_cube.parquet'' | Some p \<Rightarrow> p),
                  output_summaries_dir =
                    (case kw_output_summaries_dir kw of None \<Rightarrow> ''data/summaries'' | Some p \<Rightarrow> p),
                  compression = c,
                  streaming = (case kw_streaming kw of None \<Rightarrow> True | Some b \<Rightarrow> b) \<rparr>)"

definition no_kwargs :: kwargs where
  "no_kwargs = \<lparr> kw_input_file = None, kw_output_cube = None, kw_output_summaries_dir = None,
                  kw_compression = None, kw_streaming = None \<rparr>"

subsection \<open>The scanned frame (lines 55-65)\<close>

text \<open>
  One row of \<^verbatim>\<open>scan_csv(...).select(columns_to_keep)\<close>: the twelve selected columns,
  with the types the scan infers for this file layout (integers for the numeric
  columns, text for the others). An empty field is null. The rows of the frame are the
  rows that survived ingestion.
\<close>

record raw_row =
  User :: "int option"
  Card :: "int option"
  Year :: "int option"
  Month :: "int option"
  Day :: "int option"
  Amount :: "string option"
  Use_Chip :: "string option"
  Merchant_City :: "string option"
  Merchant_State :: "string option"
  MCC :: "int option"
  Errors :: "string option"
  Is_Fraud :: "string option"

subsection \<open>Downcasting and the cleaned amount (lines 69-88)\<close>

text \<open>
  \<^verbatim>\<open>Expr.cast\<close> is strict unless \<^verbatim>\<open>strict=False\<close> is given, and the script never gives
  it: a null stays null, a value the target type holds is kept, and any other value
  raises when the plan runs. \<open>cast_int w\<close> is the cast to the signed \<open>w\<close>-bit integers.
\<close>

definition cast_int :: "nat \<Rightarrow> int option \<Rightarrow> error + int option" where
  "cast_int w v =
     (case v of
        None \<Rightarrow> Inr None
      | Some i \<Rightarrow> if - (2 ^ (w - 1)) \<le> i \<and> i < 2 ^ (w - 1) then Inr (Some i)
                  else Inl InvalidOperationError)"

text \<open>\<^verbatim>\<open>.str.replace_all(r"[\$,]", "")\<close>: every dollar sign and every comma is removed.\<close>

definition str_replace_all :: "string \<Rightarrow> string" where
  "str_replace_all s = filter (\<lambda>c. c \<noteq> CHR ''$'' \<and> c \<noteq> CHR '','') s"

text \<open>
  \<^verbatim>\<open>.cast(pl.Float32)\<close> on text, strict: a string the parser rejects raises.
\<close>

definition cast_float :: "(string \<Rightarrow> 'a option) \<Rightarrow> string option \<Rightarrow> error + 'a option" where
  "cast_float parse v =
     (case v of
        None \<Rightarrow> Inr None
      | Some s \<Rightarrow> (case parse s of None \<Rightarrow> Inl InvalidOperationError | Some x \<Rightarrow> Inr (Some x)))"

text \<open>
  A row of the frame after both \<^verbatim>\<open>with_columns\<close> calls, as the plan computes it. The
  plan is lazy and the engine computes only the columns that a later stage reads. The
  aggregation reads nine columns; \<^verbatim>\<open>Card\<close>, \<^verbatim>\<open>Day\<close>, \<^verbatim>\<open>Merchant City\<close> and \<^verbatim>\<open>date\<close> are
  read by no later stage, so their casts and the date constructor of line 97 never run
  and their values decide nothing. The cast to \<^verbatim>\<open>Categorical\<close> changes the encoding of
  a text column and not its values.
\<close>

record 'a lf_row =
  lf_User :: "int option"
  lf_Year :: "int option"
  lf_Month :: "int option"
  lf_Use_Chip :: "string option"
  lf_Merchant_State :: "string option"
  lf_MCC :: "int option"
  amount_clean :: "'a option"
  is_fraud :: "bool option"
  has_error :: bool

subsection \<open>Flags (lines 91-98)\<close>

text \<open>
  \<^verbatim>\<open>str.to_lowercase\<close> maps the letters \<open>A\<close>..\<open>Z\<close> to \<open>a\<close>..\<open>z\<close>. (Strings are byte
  strings here; no character outside ASCII has a lowercase form containing \<open>y\<close>, \<open>e\<close>
  or \<open>s\<close>, so the comparison with \<^verbatim>\<open>"yes"\<close> is the same.) The comparison \<^verbatim>\<open>==\<close>
  of a null with a literal is null.
\<close>

definition to_lowercase_char :: "char \<Rightarrow> char" where
  "to_lowercase_char c =
     (let n = (of_char c :: nat)
      in if 65 \<le> n \<and> n \<le> 90 then char_of (n + 32) else c)"

definition to_lowercase :: "string \<Rightarrow> string" where
  "to_lowercase s = map to_lowercase_char s"

definition is_fraud_expr :: "string option \<Rightarrow> bool option" where
  "is_fraud_expr v = map_option (\<lambda>s. to_lowercase s = ''yes'') v"

definition is_not_null :: "'x option \<Rightarrow> bool" where
  "is_not_null v = (v \<noteq> None)"

definition with_columns :: "(string \<Rightarrow> 'a option) \<Rightarrow> raw_row \<Rightarrow> error + 'a lf_row" where
  "with_columns parse r =
     and_then (cast_int 16 (Year r)) (\<lambda>y.
     and_then (cast_int 8 (Month r)) (\<lambda>m.
     and_then (cast_int 16 (MCC r)) (\<lambda>mcc.
     and_then (cast_int 32 (User r)) (\<lambda>u.
     and_then (cast_float parse (map_option str_replace_all (Amount r))) (\<lambda>a.
       Inr \<lparr> lf_User = u, lf_Year = y, lf_Month = m,
             lf_Use_Chip = Use_Chip r, lf_Merchant_State = Merchant_State r, lf_MCC = mcc,
             amount_clean = a,
             is_fraud = is_fraud_expr (Is_Fraud r),
             has_error = is_not_null (Errors r) \<rparr>)))))"

text \<open>A column expression that raises on one row fails the whole frame.\<close>

fun frame_map :: "('r \<Rightarrow> error + 's) \<Rightarrow> 'r list \<Rightarrow> error + 's list" where
  "frame_map f [] = Inr []"
| "frame_map f (r # rs) =
     and_then (f r) (\<lambda>s. and_then (frame_map f rs) (\<lambda>ss. Inr (s # ss)))"

subsection \<open>Aggregation (lines 102-115)\<close>

type_synonym dims = "int option \<times> int option \<times> string option \<times> string option \<times> int option \<times> bool option"

definition group_key :: "'a lf_row \<Rightarrow> dims" where
  "group_key r = (lf_Year r, lf_Month r, lf_Merchant_State r, lf_Use_Chip r, lf_MCC r, is_fraud r)"

text \<open>
  \<^verbatim>\<open>group_by\<close>: one group for each distinct key, a null being a key value like any
  other; a group holds the rows with its key.
\<close>

definition group_by :: "'a lf_row list \<Rightarrow> (dims \<times> 'a lf_row list) list" where
  "group_by rows =
     map (\<lambda>k. (k, filter (\<lambda>r. group_key r = k) rows)) (remdups (map group_key rows))"

record 'a cube_row =
  cube_Year :: "int option"
  cube_Month :: "int option"
  cube_Merchant_State :: "string option"
  cube_Use_Chip :: "string option"
  cube_MCC :: "int option"
  cube_is_fraud :: "bool option"
  total_transactions :: nat
  total_amount :: 'a
  avg_amount :: "'a option"
  error_count :: nat
  unique_users :: nat

text \<open>
  The aggregations. \<^verbatim>\<open>pl.len()\<close> counts every row of the group. \<^verbatim>\<open>sum\<close> and \<^verbatim>\<open>mean\<close>
  skip nulls: the sum of no value is 0, the mean of no value is null. The sum of a
  Boolean column counts its true entries. \<^verbatim>\<open>n_unique\<close> counts distinct values, null
  being one of them. The three counts are natural numbers: the engine counts in 32
  bits and holds no frame of \<open>2 ^ 32\<close> rows or more, so no count wraps.
\<close>

definition non_null :: "'x option list \<Rightarrow> 'x list" where
  "non_null vs = List.map_filter id vs"

definition col_sum :: "('a::field_char_0) option list \<Rightarrow> 'a" where
  "col_sum vs = sum_list (non_null vs)"

definition col_mean :: "('a::field_char_0) option list \<Rightarrow> 'a option" where
  "col_mean vs =
     (if non_null vs = [] then None
      else Some (sum_list (non_null vs) / of_nat (length (non_null vs))))"

definition n_unique :: "'x list \<Rightarrow> nat" where
  "n_unique vs = length (remdups vs)"

definition agg :: "dims \<times> ('a::field_char_0) lf_row list \<Rightarrow> 'a cube_row" where
  "agg g =
     (case g of ((y, m, st, ch, mcc, fr), grp) \<Rightarrow>
        \<lparr> cube_Year = y, cube_Month = m, cube_Merchant_State = st, cube_Use_Chip = ch,
          cube_MCC = mcc, cube_is_fraud = fr,
          total_transactions = length grp,
          total_amount = col_sum (map amount_clean grp),
          avg_amount = col_mean (map amount_clean grp),
          error_count = length (filter has_error grp),
          unique_users = n_unique (map lf_User grp) \<rparr>)"

text \<open>
  \<^verbatim>\<open>build_optimized_pipeline\<close>, run on the rows of the scanned frame: the plan it
  returns, evaluated.
\<close>

definition build_optimized_pipeline ::
  "(string \<Rightarrow> ('a::field_char_0) option) \<Rightarrow> raw_row list \<Rightarrow> error + 'a cube_row list" where
  "build_optimized_pipeline parse rows =
     and_then (frame_map (with_columns parse) rows) (\<lambda>lf. Inr (map agg (group_by lf)))"

text \<open>
  The sum and the mean of \<^verbatim>\<open>amount_clean\<close> are reductions of the engine over \<open>Float32\<close>.
  \<open>agg_with\<close> and \<open>build_optimized_pipeline_with\<close> are \<open>agg\<close> and the pipeline with these
  two reductions as parameters \<open>fsum\<close> and \<open>fmean\<close>, each applied to the non-null amounts
  of a group; \<open>agg\<close> is \<open>agg_with\<close> at the exact sum and the exact mean.
\<close>

definition agg_with ::
  "('a list \<Rightarrow> 'a) \<Rightarrow> ('a list \<Rightarrow> 'a) \<Rightarrow> dims \<times> 'a lf_row list \<Rightarrow> 'a cube_row" where
  "agg_with fsum fmean g =
     (case g of ((y, m, st, ch, mcc, fr), grp) \<Rightarrow>
        \<lparr> cube_Year = y, cube_Month = m, cube_Merchant_State = st, cube_Use_Chip = ch,
          cube_MCC = mcc, cube_is_fraud = fr,
          total_transactions = length grp,
          total_amount = fsum (non_null (map amount_clean grp)),
          avg_amount = (if non_null (map amount_clean grp) = [] then None
                        else Some (fmean (non_null (map amount_clean grp)))),
          error_count = length (filter has_error grp),
          unique_users = n_unique (map lf_User grp) \<rparr>)"

definition build_optimized_pipeline_with ::
  "('a list \<Rightarrow> 'a) \<Rightarrow> ('a list \<Rightarrow> 'a) \<Rightarrow> (string \<Rightarrow> 'a option) \<Rightarrow> raw_row list
     \<Rightarrow> error + 'a cube_row list" where
  "build_optimized_pipeline_with fsum fmean parse rows =
     and_then (frame_map (with_columns parse) rows)
       (\<lambda>lf. Inr (map (agg_with fsum fmean) (group_by lf)))"

subsection \<open>\<open>Float32\<close> arithmetic\<close>

text \<open>
  A finite \<open>Float32\<close> value is a rational \<open>m * 2 ^ e\<close> with \<open>\<bar>m\<bar> < 2 ^ 24\<close>. \<open>f32_round\<close>
  rounds a rational to the nearest such value, ties to the even \<open>m\<close> (IEEE 754
  round-to-nearest-even): \<open>f32_exponent x\<close> is the integer \<open>e\<close> with
  \<open>2 ^ e \<le> \<bar>x\<bar> < 2 ^ (e + 1)\<close>, so that \<open>x / 2 ^ (e - 23)\<close> has its integer part in 24 bits.
  The exponent range (overflow to an infinity, subnormal numbers) and \<open>NaN\<close> are not
  modelled. \<open>f32_sum\<close> adds in \<open>Float32\<close> from left to right, \<open>f32_mean\<close> rounds the exact
  mean once.
\<close>

fun bit_length :: "nat \<Rightarrow> nat" where
  "bit_length n = (if n = 0 then 0 else Suc (bit_length (n div 2)))"

declare bit_length.simps [simp del]

definition f32_exponent :: "rat \<Rightarrow> int" where
  "f32_exponent x =
     (if 1 \<le> \<bar>x\<bar> then int (bit_length (nat \<lfloor>\<bar>x\<bar>\<rfloor>)) - 1
      else - int (bit_length (nat (\<lceil>1 / \<bar>x\<bar>\<rceil> - 1))))"

definition round_half_even :: "rat \<Rightarrow> int" where
  "round_half_even q =
     (let f = \<lfloor>q\<rfloor>; d = q - of_int f
      in if d < 1 / 2 then f else if 1 / 2 < d then f + 1 else if even f then f else f + 1)"

definition f32_round :: "rat \<Rightarrow> rat" where
  "f32_round x =
     (if x = 0 then 0
      else (let u = 2 powi (f32_exponent x - 23) in of_int (round_half_even (x / u)) * u))"

definition f32_sum :: "rat list \<Rightarrow> rat" where
  "f32_sum xs = foldl (\<lambda>acc x. f32_round (acc + x)) 0 xs"

definition f32_mean :: "rat list \<Rightarrow> rat" where
  "f32_mean xs = f32_round (sum_list xs / of_nat (length xs))"

subsection \<open>Execution and \<^verbatim>\<open>main\<close> (lines 123-166)\<close>

text \<open>
  What lies outside the script is a parameter of the run. The engine: its float parser,
  whether its streaming sink accepts the plan, and the order in which each of its two
  executors (the streaming one behind \<^verbatim>\<open>sink_parquet\<close>, the in-memory one behind
  \<^verbatim>\<open>collect\<close>) consumes the scanned rows; an executor may take the rows in any order
  but neither drops nor repeats one. The world: the CSV files as scanned frames, the
  Parquet files as lists of cube rows, the directories made and the log.
\<close>

record 'a engine =
  parse_float :: "string \<Rightarrow> 'a option"
  sink_supported :: bool
  stream_order :: "raw_row list \<Rightarrow> raw_row list"
  collect_order :: "raw_row list \<Rightarrow> raw_row list"

definition fair :: "(raw_row list \<Rightarrow> raw_row list) \<Rightarrow> bool" where
  "fair ord = (\<forall>rows. mset (ord rows) = mset rows)"

datatype level = INFO | WARNING | ERROR

record 'a world =
  csv_files :: "string \<Rightarrow> raw_row list option"
  parquet_files :: "string \<Rightarrow> 'a cube_row list option"
  dirs :: "string set"
  log :: "level list"

datatype outcome = Returned | SysExit nat | Uncaught error

definition logger :: "level \<Rightarrow> 'a world \<Rightarrow> 'a world" where
  "logger l w = w\<lparr>log := log w @ [l]\<rparr>"

definition scan_csv :: "'a world \<Rightarrow> string \<Rightarrow> error + raw_row list" where
  "scan_csv w path = (case csv_files w path of None \<Rightarrow> Inl FileNotFoundError | Some rows \<Rightarrow> Inr rows)"

text \<open>
  \<^verbatim>\<open>pipeline.sink_parquet(config.output_cube, compression=config.compression)\<close>: the
  plan runs on the streaming executor and its result is written. The compression
  changes the file's encoding and not its rows.
\<close>

definition sink_parquet :: "('a::field_char_0) engine \<Rightarrow> ETLConfig \<Rightarrow> 'a world \<Rightarrow> error + 'a world" where
  "sink_parquet eng config w =
     (if \<not> sink_supported eng then Inl SinkUnsupported
      else and_then (scan_csv w (input_file config)) (\<lambda>rows.
           and_then (build_optimized_pipeline (parse_float eng) (stream_order eng rows)) (\<lambda>cube.
             Inr (w\<lparr>parquet_files := (parquet_files w)(output_cube config \<mapsto> cube)\<rparr>))))"

text \<open>\<^verbatim>\<open>pipeline.collect(streaming=True)\<close> and \<^verbatim>\<open>result.write_parquet(...)\<close>.\<close>

definition collect :: "('a::field_char_0) engine \<Rightarrow> ETLConfig \<Rightarrow> 'a world \<Rightarrow> error + 'a cube_row list" where
  "collect eng config w =
     and_then (scan_csv w (input_file config)) (\<lambda>rows.
       build_optimized_pipeline (parse_float eng) (collect_order eng rows))"

definition write_parquet :: "ETLConfig \<Rightarrow> 'a cube_row list \<Rightarrow> 'a world \<Rightarrow> 'a world" where
  "write_parquet config result w = w\<lparr>parquet_files := (parquet_files w)(output_cube config \<mapsto> result)\<rparr>"

text \<open>
  The body of \<^verbatim>\<open>main\<close> after the configuration is built. Building the plan logs three
  messages and runs nothing; the plan runs inside the inner \<^verbatim>\<open>try\<close>. Any exception of
  the sink is caught there (line 147), logged as a warning, and the in-memory path is
  taken; an exception of that path reaches the outer handler (line 164), which logs an
  error and exits with status 1. Making the summaries directory and reading the size
  of the written file are taken to succeed.
\<close>

definition finished :: "'a world \<Rightarrow> outcome \<times> 'a world" where
  "finished w = (Returned, logger INFO (logger INFO (logger INFO (logger INFO (logger INFO w)))))"

definition main_body :: "('a::field_char_0) engine \<Rightarrow> ETLConfig \<Rightarrow> 'a world \<Rightarrow> outcome \<times> 'a world" where
  "main_body eng config w0 =
     (let w1 = logger INFO w0;
          w2 = logger INFO (logger INFO (logger INFO w1));
          w3 = w2\<lparr>dirs := insert (output_summaries_dir config) (dirs w2)\<rparr>;
          w4 = logger INFO (logger INFO w3)
      in case sink_parquet eng config w4 of
           Inr w5 \<Rightarrow> finished w5
         | Inl e \<Rightarrow>
             (let w5 = logger WARNING w4
              in case collect eng config w5 of
                   Inr result \<Rightarrow> finished (write_parquet config result w5)
                 | Inl e' \<Rightarrow> (SysExit 1, logger ERROR w5)))"

text \<open>
  \<^verbatim>\<open>main\<close> builds the configuration first (line 125, outside every \<^verbatim>\<open>try\<close>).
  \<open>main_with\<close> is \<^verbatim>\<open>main\<close> with the keyword arguments of that constructor call made
  explicit; the script calls it with none.
\<close>

definition main_with :: "kwargs \<Rightarrow> ('a::field_char_0) engine \<Rightarrow> 'a world \<Rightarrow> outcome \<times> 'a world" where
  "main_with kw eng w =
     (case ETLConfig_init kw of
        Inl e \<Rightarrow> (Uncaught e, w)
      | Inr config \<Rightarrow> main_body eng config w)"

definition main :: "('a::field_char_0) engine \<Rightarrow> 'a world \<Rightarrow> outcome \<times> 'a world" where
  "main eng w = main_with no_kwargs eng w"

subsection \<open>A decimal reader for the evaluated examples\<close>

text \<open>
  The examples need a concrete float parser. \<open>parse_decimal\<close> reads an optional minus
  sign, digits, and optionally a point and more digits, and rejects every other
  string. The examples use it only on such decimals and on strings with no digit.
\<close>

definition digit_of :: "char \<Rightarrow> nat option" where
  "digit_of c = (let n = (of_char c :: nat) in if 48 \<le> n \<and> n \<le> 57 then Some (n - 48) else None)"

fun digits_value :: "nat \<Rightarrow> string \<Rightarrow> nat option" where
  "digits_value acc [] = Some acc"
| "digits_value acc (c # cs) =
     (case digit_of c of None \<Rightarrow> None | Some d \<Rightarrow> digits_value (10 * acc + d) cs)"

definition parse_unsigned :: "string \<Rightarrow> rat option" where
  "parse_unsigned s =
     (let ip = takeWhile (\<lambda>c. c \<noteq> CHR ''.'') s;
          rest = dropWhile (\<lambda>c. c \<noteq> CHR ''.'') s;
          fp = drop 1 rest
      in if ip = [] \<or> (rest \<noteq> [] \<and> fp = []) then None
         else (case digits_value 0 ip of
                 None \<Rightarrow> None
               | Some i \<Rightarrow> (case digits_value 0 fp of
                     None \<Rightarrow> None
                   | Some f \<Rightarrow> Some (of_nat i + of_nat f / 10 ^ length fp))))"

definition parse_decimal :: "string \<Rightarrow> rat option" where
  "parse_decimal s =
     (case s of
        [] \<Rightarrow> None
      | c # t \<Rightarrow> if c = CHR ''-'' then map_option uminus (parse_unsigned t) else parse_unsigned s)"

text \<open>
  The three rows of the specification's literal example (two transactions in CA of
  $10.00 and $20.00, one in NY of $5.00, all in January 2020, none fraudulent), and
  variations of the first: a null amount, an amount that is no number, a null fraud flag.
\<close>

definition row_CA_10 :: raw_row where
  "row_CA_10 = \<lparr> User = Some 0, Card = Some 0, Year = Some 2020, Month = Some 1, Day = Some 15,
                  Amount = Some ''$10.00'', Use_Chip = Some ''Chip Transaction'',
                  Merchant_City = Some ''La Verne'', Merchant_State = Some ''CA'', MCC = Some 5411,
                  Errors = None, Is_Fraud = Some ''No'' \<rparr>"

definition row_CA_20 :: raw_row where
  "row_CA_20 = row_CA_10\<lparr> User := Some 1, Amount := Some ''$20.00'', Errors := Some ''Bad PIN'' \<rparr>"

definition row_NY_5 :: raw_row where
  "row_NY_5 = row_CA_10\<lparr> Amount := Some ''$5.00'', Merchant_City := Some ''New York'',
                          Merchant_State := Some ''NY'' \<rparr>"

definition row_null_amount :: raw_row where
  "row_null_amount = row_CA_10\<lparr> Amount := None \<rparr>"

definition row_bad_amount :: raw_row where
  "row_bad_amount = row_CA_10\<lparr> Amount := Some ''$N/A'' \<rparr>"

definition row_null_flag :: raw_row where
  "row_null_flag = row_CA_10\<lparr> Is_Fraud := None \<rparr>"

definition example_rows :: "raw_row list" where
  "example_rows = [row_CA_10, row_CA_20, row_NY_5]"

definition example_engine :: "rat engine" where
  "example_engine = \<lparr> parse_float = parse_decimal, sink_supported = True,
                        stream_order = id, collect_order = rev \<rparr>"

text \<open>A second engine for the examples: no streaming sink, the other row orders.\<close>

definition other_engine :: "rat engine" where
  "other_engine = \<lparr> parse_float = parse_decimal, sink_supported = False,
                      stream_order = rev, collect_order = id \<rparr>"

definition example_world :: "raw_row list \<Rightarrow> rat world" where
  "example_world rows = \<lparr> csv_files = [''data/credit_card.csv'' \<mapsto> rows],
                           parquet_files = Map.empty, dirs = {}, log = [] \<rparr>"

definition example_cube :: "rat cube_row list" where
  "example_cube =
     [\<lparr> cube_Year = Some 2020, cube_Month = Some 1, cube_Merchant_State = Some ''CA'',
        cube_Use_Chip = Some ''Chip Transaction'', cube_MCC = Some 5411, cube_is_fraud = Some False,
        total_transactions = 2, total_amount = 30, avg_amount = Some 15, error_count = 1,
        unique_users = 2 \<rparr>,
      \<lparr> cube_Year = Some 2020, cube_Month = Some 1, cube_Merchant_State = Some ''NY'',
        cube_Use_Chip = Some ''Chip Transaction'', cube_MCC = Some 5411, cube_is_fraud = Some False,
        total_transactions = 1, total_amount = 5, avg_amount = Some 5, error_count = 0,
        unique_users = 1 \<rparr>]"

text \<open>The cube of the frame made of \<open>row_CA_10\<close> and \<open>row_null_amount\<close>.\<close>

definition cube_null_amount :: "rat cube_row" where
  "cube_null_amount =
     \<lparr> cube_Year = Some 2020, cube_Month = Some 1, cube_Merchant_State = Some ''CA'',
       cube_Use_Chip = Some ''Chip Transaction'', cube_MCC = Some 5411, cube_is_fraud = Some False,
       total_transactions = 2, total_amount = 10, avg_amount = Some 10, error_count = 0,
       unique_users = 1 \<rparr>"

text \<open>The cube of the frame made of \<open>row_null_flag\<close> alone.\<close>

definition cube_null_flag :: "rat cube_row" where
  "cube_null_flag =
     \<lparr> cube_Year = Some 2020, cube_Month = Some 1, cube_Merchant_State = Some ''CA'',
       cube_Use_Chip = Some ''Chip Transaction'', cube_MCC = Some 5411, cube_is_fraud = None,
       total_transactions = 1, total_amount = 10, avg_amount = Some 10, error_count = 0,
       unique_users = 1 \<rparr>"

text \<open>The \<open>Float32\<close> parser of the examples rounds the decimal it reads.\<close>

definition parse_f32 :: "string \<Rightarrow> rat option" where
  "parse_f32 s = map_option f32_round (parse_decimal s)"

text \<open>Two rows of one group with the amounts $0.10 and $0.20, and their cube in \<open>Float32\<close>.\<close>

definition row_010 :: raw_row where
  "row_010 = row_CA_10\<lparr> Amount := Some ''$0.10'' \<rparr>"

definition row_020 :: raw_row where
  "row_020 = row_CA_10\<lparr> Amount := Some ''$0.20'' \<rparr>"

definition cube_f32 :: "rat cube_row" where
  "cube_f32 =
     \<lparr> cube_Year = Some 2020, cube_Month = Some 1, cube_Merchant_State = Some ''CA'',
       cube_Use_Chip = Some ''Chip Transaction'', cube_MCC = Some 5411, cube_is_fraud = Some False,
       total_transactions = 2, total_amount = 5033165 / 16777216,
       avg_amount = Some (5033165 / 33554432), error_count = 0, unique_users = 1 \<rparr>"



subsection \<open>Vocabulary of the properties\<close>

text \<open>
  The amounts of a frame as the specification describes them: the amount strings that
  are present, stripped of \<open>$\<close> and \<open>,\<close>, that the parser accepts.
\<close>

definition parsed_amounts :: "(string \<Rightarrow> 'a option) \<Rightarrow> raw_row list \<Rightarrow> 'a list" where
  "parsed_amounts parse rows =
     List.map_filter (\<lambda>r. case Amount r of None \<Rightarrow> None | Some s \<Rightarrow> parse (str_replace_all s)) rows"

text \<open>The strings that equal \<^verbatim>\<open>"yes"\<close> when case is ignored.\<close>

definition yes_spellings :: "string set" where
  "yes_spellings = {''yes'', ''yeS'', ''yEs'', ''yES'', ''Yes'', ''YeS'', ''YEs'', ''YES''}"

definition fraud_flag :: "string option \<Rightarrow> bool option" where
  "fraud_flag v = (case v of None \<Rightarrow> None | Some s \<Rightarrow> Some (s \<in> yes_spellings))"

text \<open>The dimensions of a cube row, and the dimensions under which a raw row is counted.\<close>

definition cube_dims :: "'a cube_row \<Rightarrow> dims" where
  "cube_dims c = (cube_Year c, cube_Month c, cube_Merchant_State c, cube_Use_Chip c, cube_MCC c,
                  cube_is_fraud c)"

definition raw_dims :: "raw_row \<Rightarrow> dims" where
  "raw_dims r = (Year r, Month r, Merchant_State r, Use_Chip r, MCC r, fraud_flag (Is_Fraud r))"

text \<open>
  The raw rows counted under given dimensions, and those of them that carry an amount.
\<close>

definition priced_rows :: "raw_row list \<Rightarrow> dims \<Rightarrow> nat" where
  "priced_rows rows k = length (filter (\<lambda>r. raw_dims r = k \<and> Amount r \<noteq> None) rows)"

definition counted_rows :: "raw_row list \<Rightarrow> dims \<Rightarrow> nat" where
  "counted_rows rows k = length (filter (\<lambda>r. raw_dims r = k) rows)"

text \<open>The world when \<^verbatim>\<open>main\<close> reaches the sink: six messages logged, the directory made.\<close>

definition before_sink :: "ETLConfig \<Rightarrow> 'a world \<Rightarrow> 'a world" where
  "before_sink config w0 =
     logger INFO (logger INFO
       ((logger INFO (logger INFO (logger INFO (logger INFO w0))))
          \<lparr>dirs := insert (output_summaries_dir config)
                    (dirs (logger INFO (logger INFO (logger INFO (logger INFO w0)))))\<rparr>))"

text \<open>
  A sum is accurate to \<open>e\<close> on lists of at most \<open>n\<close> values when its error is at most \<open>e\<close>
  times the sum of the absolute values.
\<close>

definition sum_accurate :: "nat \<Rightarrow> 'a \<Rightarrow> (('a::linordered_field) list \<Rightarrow> 'a) \<Rightarrow> bool" where
  "sum_accurate n e fsum =
     (\<forall>xs. length xs \<le> n \<longrightarrow> \<bar>fsum xs - sum_list xs\<bar> \<le> e * sum_list (map abs xs))"

section \<open>Properties\<close>

subsection \<open>The error monad and the frame\<close>

lemma and_then_Inr: "and_then m f = Inr y \<longleftrightarrow> (\<exists>x. m = Inr x \<and> f x = Inr y)"
  by (cases m) (simp_all add: and_then_def)

lemma frame_map_Inr: "frame_map f rows = Inr lf \<longleftrightarrow> list_all2 (\<lambda>r s. f r = Inr s) rows lf"
proof (induction rows arbitrary: lf)
  case Nil
  then show ?case by auto
next
  case (Cons r rs)
  show ?case
    by (cases lf) (auto simp: and_then_Inr Cons.IH)
qed

lemma frame_map_length: "frame_map f rows = Inr lf \<Longrightarrow> length lf = length rows"
  by (simp add: frame_map_Inr list_all2_lengthD)

subsection \<open>Sums over the groups\<close>

lemma sum_list_single_key:
  fixes c :: "'b::comm_monoid_add"
  shows "distinct ks \<Longrightarrow>
    sum_list (map (\<lambda>k. if a = k then c else 0) ks) = (if a \<in> set ks then c else 0)"
  by (induction ks) auto

lemma sum_list_by_key:
  fixes g :: "'r \<Rightarrow> 'b::comm_monoid_add"
  assumes "distinct ks" and "f ` set xs \<subseteq> set ks"
  shows "sum_list (map (\<lambda>k. sum_list (map g (filter (\<lambda>r. f r = k) xs))) ks) = sum_list (map g xs)"
  using assms(2)
proof (induction xs)
  case Nil
  then show ?case by simp
next
  case (Cons x xs)
  have "sum_list (map (\<lambda>k. sum_list (map g (filter (\<lambda>r. f r = k) (x # xs)))) ks)
      = sum_list (map (\<lambda>k. (if f x = k then g x else 0)
                             + sum_list (map g (filter (\<lambda>r. f r = k) xs))) ks)"
    by (rule arg_cong [where f = sum_list], rule map_cong) auto
  also have "\<dots> = sum_list (map (\<lambda>k. if f x = k then g x else 0) ks)
                  + sum_list (map (\<lambda>k. sum_list (map g (filter (\<lambda>r. f r = k) xs))) ks)"
    by (simp add: sum_list_addf)
  also have "\<dots> = g x + sum_list (map g xs)"
    using Cons assms(1) by (simp add: sum_list_single_key)
  finally show ?case by simp
qed

lemma sum_list_group_by:
  fixes g :: "'a lf_row \<Rightarrow> 'b::comm_monoid_add"
  shows "sum_list (map (\<lambda>(k, grp). sum_list (map g grp)) (group_by lf)) = sum_list (map g lf)"
proof -
  have "sum_list (map (\<lambda>(k, grp). sum_list (map g grp)) (group_by lf))
      = sum_list (map (\<lambda>k. sum_list (map g (filter (\<lambda>r. group_key r = k) lf)))
                    (remdups (map group_key lf)))"
    by (simp add: group_by_def comp_def)
  also have "\<dots> = sum_list (map g lf)"
    by (rule sum_list_by_key) auto
  finally show ?thesis .
qed

lemma sum_list_ones: "sum_list (map (\<lambda>_. 1::nat) xs) = length xs"
  by (induction xs) auto

lemma total_transactions_agg: "total_transactions (agg g) = length (snd g)"
  by (cases g) (auto simp: agg_def)

lemma group_by_nonempty: "(k, grp) \<in> set (group_by lf) \<Longrightarrow> grp \<noteq> []"
  by (auto simp: group_by_def filter_empty_conv)

lemma n_unique_bounds: "vs \<noteq> [] \<Longrightarrow> 1 \<le> n_unique vs \<and> n_unique vs \<le> length vs"
proof -
  assume "vs \<noteq> []"
  then have "remdups vs \<noteq> []" by simp
  then have "0 < length (remdups vs)" by simp
  then show ?thesis by (simp add: n_unique_def Suc_leI)
qed

subsection \<open>The literal example, evaluated\<close>

lemma parse_decimal_examples:
  "parse_decimal ''10.00'' = Some 10" "parse_decimal ''20.00'' = Some 20"
  "parse_decimal ''5.00'' = Some 5" "parse_decimal ''N/A'' = None"
  by (simp_all add: parse_decimal_def parse_unsigned_def digit_of_def)

lemmas row_defs = row_CA_10_def row_CA_20_def row_NY_5_def row_null_amount_def
  row_bad_amount_def row_null_flag_def

lemmas eval_defs = build_optimized_pipeline_def with_columns_def and_then_def cast_int_def
  cast_float_def str_replace_all_def is_fraud_expr_def is_not_null_def to_lowercase_def
  to_lowercase_char_def group_by_def group_key_def agg_def col_sum_def col_mean_def
  non_null_def n_unique_def

lemma example_pipeline: "build_optimized_pipeline parse_decimal example_rows = Inr example_cube"
  by (simp add: example_rows_def example_cube_def row_defs eval_defs parse_decimal_examples)

subsection \<open>Conservation of count\<close>

text \<open>
  C5. When the pipeline produces a cube, the \<open>total_transactions\<close> of its rows add up
  to the number of rows of the scanned frame, that is, of the raw rows that survived
  ingestion.
\<close>

theorem count_conserved:
  assumes "build_optimized_pipeline parse rows = Inr cube"
  shows "sum_list (map total_transactions cube) = length rows"
proof -
  from assms obtain lf where lf: "frame_map (with_columns parse) rows = Inr lf"
    and cube: "cube = map agg (group_by lf)"
    by (auto simp: build_optimized_pipeline_def and_then_Inr)
  have "sum_list (map total_transactions cube)
      = sum_list (map (\<lambda>(k, grp). sum_list (map (\<lambda>_. 1::nat) grp)) (group_by lf))"
    unfolding cube
    by (simp only: map_map comp_def total_transactions_agg case_prod_unfold sum_list_ones)
  also have "\<dots> = length lf"
    using sum_list_group_by [of "\<lambda>_. 1::nat" lf] by (simp only: sum_list_ones)
  finally show ?thesis using frame_map_length [OF lf] by simp
qed

theorem count_conserved_witness:
  "build_optimized_pipeline parse_decimal example_rows = Inr example_cube
   \<and> sum_list (map total_transactions example_cube) = 3
   \<and> length example_rows = 3"
  using count_conserved [OF example_pipeline] example_pipeline
  by (simp add: example_rows_def)

subsection \<open>The measures of one cube row\<close>

text \<open>
  C10. In every row of a cube the pipeline produces, \<open>total_transactions\<close> is at least
  1, \<open>error_count\<close> lies between 0 and \<open>total_transactions\<close>, and \<open>unique_users\<close> lies
  between 1 and \<open>total_transactions\<close>.
\<close>

theorem cube_row_measures:
  assumes "build_optimized_pipeline parse rows = Inr cube" and "c \<in> set cube"
  shows "1 \<le> total_transactions c
       \<and> 0 \<le> error_count c \<and> error_count c \<le> total_transactions c
       \<and> 1 \<le> unique_users c \<and> unique_users c \<le> total_transactions c"
proof -
  from assms obtain lf k grp where g: "(k, grp) \<in> set (group_by lf)" and c: "c = agg (k, grp)"
    by (auto simp: build_optimized_pipeline_def and_then_Inr)
  have ne: "grp \<noteq> []" using g by (rule group_by_nonempty)
  have tt: "total_transactions c = length grp"
    and ec: "error_count c = length (filter has_error grp)"
    and uu: "unique_users c = n_unique (map lf_User grp)"
    unfolding c by (cases k; simp add: agg_def)+
  have "1 \<le> length grp" using ne by (simp add: Suc_leI)
  moreover have "length (filter has_error grp) \<le> length grp" by (rule length_filter_le)
  moreover have "1 \<le> n_unique (map lf_User grp) \<and> n_unique (map lf_User grp) \<le> length grp"
    using n_unique_bounds [of "map lf_User grp"] ne by simp
  ultimately show ?thesis by (simp add: tt ec uu)
qed

theorem cube_row_measures_witness:
  "hd example_cube \<in> set example_cube
   \<and> total_transactions (hd example_cube) = 2
   \<and> error_count (hd example_cube) = 1
   \<and> unique_users (hd example_cube) = 2"
  using cube_row_measures [OF example_pipeline, of "hd example_cube"]
  by (simp add: example_cube_def)

subsection \<open>The fraud flag\<close>

lemma of_char_to_lowercase_char:
  "(of_char (to_lowercase_char c) :: nat)
     = (if 65 \<le> (of_char c :: nat) \<and> (of_char c :: nat) \<le> 90 then of_char c + 32 else of_char c)"
  by (simp add: to_lowercase_char_def Let_def)

lemma lower_y: "to_lowercase_char c = CHR ''y'' \<longleftrightarrow> c = CHR ''y'' \<or> c = CHR ''Y''"
proof -
  have "to_lowercase_char c = CHR ''y'' \<longleftrightarrow> (of_char (to_lowercase_char c) :: nat) = of_char (CHR ''y'')"
    by (metis of_char_eq_iff)
  also have "\<dots> \<longleftrightarrow> (of_char c :: nat) = 121 \<or> (of_char c :: nat) = 89"
    unfolding of_char_to_lowercase_char by auto
  also have "\<dots> \<longleftrightarrow> c = CHR ''y'' \<or> c = CHR ''Y''"
  proof -
    have "(of_char c :: nat) = 121 \<longleftrightarrow> (of_char c :: nat) = of_char (CHR ''y'')" by simp
    moreover have "(of_char c :: nat) = 89 \<longleftrightarrow> (of_char c :: nat) = of_char (CHR ''Y'')" by simp
    ultimately show ?thesis by (simp only: of_char_eq_iff)
  qed
  finally show ?thesis .
qed

lemma lower_e: "to_lowercase_char c = CHR ''e'' \<longleftrightarrow> c = CHR ''e'' \<or> c = CHR ''E''"
proof -
  have "to_lowercase_char c = CHR ''e'' \<longleftrightarrow> (of_char (to_lowercase_char c) :: nat) = of_char (CHR ''e'')"
    by (metis of_char_eq_iff)
  also have "\<dots> \<longleftrightarrow> (of_char c :: nat) = 101 \<or> (of_char c :: nat) = 69"
    unfolding of_char_to_lowercase_char by auto
  also have "\<dots> \<longleftrightarrow> c = CHR ''e'' \<or> c = CHR ''E''"
  proof -
    have "(of_char c :: nat) = 101 \<longleftrightarrow> (of_char c :: nat) = of_char (CHR ''e'')" by simp
    moreover have "(of_char c :: nat) = 69 \<longleftrightarrow> (of_char c :: nat) = of_char (CHR ''E'')" by simp
    ultimately show ?thesis by (simp only: of_char_eq_iff)
  qed
  finally show ?thesis .
qed

lemma lower_s: "to_lowercase_char c = CHR ''s'' \<longleftrightarrow> c = CHR ''s'' \<or> c = CHR ''S''"
proof -
  have "to_lowercase_char c = CHR ''s'' \<longleftrightarrow> (of_char (to_lowercase_char c) :: nat) = of_char (CHR ''s'')"
    by (metis of_char_eq_iff)
  also have "\<dots> \<longleftrightarrow> (of_char c :: nat) = 115 \<or> (of_char c :: nat) = 83"
    unfolding of_char_to_lowercase_char by auto
  also have "\<dots> \<longleftrightarrow> c = CHR ''s'' \<or> c = CHR ''S''"
  proof -
    have "(of_char c :: nat) = 115 \<longleftrightarrow> (of_char c :: nat) = of_char (CHR ''s'')" by simp
    moreover have "(of_char c :: nat) = 83 \<longleftrightarrow> (of_char c :: nat) = of_char (CHR ''S'')" by simp
    ultimately show ?thesis by (simp only: of_char_eq_iff)
  qed
  finally show ?thesis .
qed


lemma to_lowercase_yes: "to_lowercase s = ''yes'' \<longleftrightarrow> s \<in> yes_spellings"
proof -
  have "to_lowercase s = ''yes'' \<longleftrightarrow>
          (\<exists>a b c. s = [a, b, c] \<and> to_lowercase_char a = CHR ''y'' \<and> to_lowercase_char b = CHR ''e''
                    \<and> to_lowercase_char c = CHR ''s'')"
    unfolding to_lowercase_def by (simp add: map_eq_Cons_conv) blast
  also have "\<dots> \<longleftrightarrow> s \<in> yes_spellings"
    unfolding lower_y lower_e lower_s yes_spellings_def by auto
  finally show ?thesis .
qed

lemma is_fraud_expr_fraud_flag: "is_fraud_expr v = fraud_flag v"
  by (cases v) (simp_all add: is_fraud_expr_def fraud_flag_def to_lowercase_yes)

subsection \<open>What \<open>with_columns\<close> keeps of a raw row\<close>

lemma cast_int_Inr: "cast_int w v = Inr x \<Longrightarrow> x = v"
  by (auto simp: cast_int_def split: option.splits if_splits)

lemma cast_float_Inr:
  "cast_float parse v = Inr x \<longleftrightarrow>
     (case v of None \<Rightarrow> x = None | Some s \<Rightarrow> parse s \<noteq> None \<and> x = parse s)"
  by (auto simp: cast_float_def split: option.splits)

lemma with_columns_cases:
  assumes "with_columns parse r = Inr s"
  obtains a where
    "cast_float parse (map_option str_replace_all (Amount r)) = Inr a"
    "s = \<lparr> lf_User = User r, lf_Year = Year r, lf_Month = Month r,
             lf_Use_Chip = Use_Chip r, lf_Merchant_State = Merchant_State r, lf_MCC = MCC r,
             amount_clean = a,
             is_fraud = is_fraud_expr (Is_Fraud r),
             has_error = is_not_null (Errors r) \<rparr>"
proof -
  from assms obtain y where y_eq: "cast_int 16 (Year r) = Inr y" and
    1: "and_then (cast_int 8 (Month r)) (\<lambda>m.
     and_then (cast_int 16 (MCC r)) (\<lambda>mcc.
     and_then (cast_int 32 (User r)) (\<lambda>u.
     and_then (cast_float parse (map_option str_replace_all (Amount r))) (\<lambda>a.
     Inr \<lparr> lf_User = u, lf_Year = y, lf_Month = m,
             lf_Use_Chip = Use_Chip r, lf_Merchant_State = Merchant_State r, lf_MCC = mcc,
             amount_clean = a,
             is_fraud = is_fraud_expr (Is_Fraud r),
             has_error = is_not_null (Errors r) \<rparr>)))) = Inr s"
    unfolding with_columns_def by (subst (asm) and_then_Inr) (erule exE, erule conjE)
  from 1 obtain m where m_eq: "cast_int 8 (Month r) = Inr m" and
    2: "and_then (cast_int 16 (MCC r)) (\<lambda>mcc.
     and_then (cast_int 32 (User r)) (\<lambda>u.
     and_then (cast_float parse (map_option str_replace_all (Amount r))) (\<lambda>a.
     Inr \<lparr> lf_User = u, lf_Year = y, lf_Month = m,
             lf_Use_Chip = Use_Chip r, lf_Merchant_State = Merchant_State r, lf_MCC = mcc,
             amount_clean = a,
             is_fraud = is_fraud_expr (Is_Fraud r),
             has_error = is_not_null (Errors r) \<rparr>))) = Inr s"
    by (subst (asm) and_then_Inr) (erule exE, erule conjE)
  from 2 obtain mcc where mcc_eq: "cast_int 16 (MCC r) = Inr mcc" and
    3: "and_then (cast_int 32 (User r)) (\<lambda>u.
     and_then (cast_float parse (map_option str_replace_all (Amount r))) (\<lambda>a.
     Inr \<lparr> lf_User = u, lf_Year = y, lf_Month = m,
             lf_Use_Chip = Use_Chip r, lf_Merchant_State = Merchant_State r, lf_MCC = mcc,
             amount_clean = a,
             is_fraud = is_fraud_expr (Is_Fraud r),
             has_error = is_not_null (Errors r) \<rparr>)) = Inr s"
    by (subst (asm) and_then_Inr) (erule exE, erule conjE)
  from 3 obtain u where u_eq: "cast_int 32 (User r) = Inr u" and
    4: "and_then (cast_float parse (map_option str_replace_all (Amount r))) (\<lambda>a.
     Inr \<lparr> lf_User = u, lf_Year = y, lf_Month = m,
             lf_Use_Chip = Use_Chip r, lf_Merchant_State = Merchant_State r, lf_MCC = mcc,
             amount_clean = a,
             is_fraud = is_fraud_expr (Is_Fraud r),
             has_error = is_not_null (Errors r) \<rparr>) = Inr s"
    by (subst (asm) and_then_Inr) (erule exE, erule conjE)
  from 4 obtain a where a_eq: "cast_float parse (map_option str_replace_all (Amount r)) = Inr a" and
    5: "s = \<lparr> lf_User = u, lf_Year = y, lf_Month = m,
             lf_Use_Chip = Use_Chip r, lf_Merchant_State = Merchant_State r, lf_MCC = mcc,
             amount_clean = a,
             is_fraud = is_fraud_expr (Is_Fraud r),
             has_error = is_not_null (Errors r) \<rparr>"
    by (subst (asm) and_then_Inr) (erule exE, erule conjE, simp)
  show thesis
    using a_eq 5 that
    by (simp only: cast_int_Inr [OF y_eq] cast_int_Inr [OF m_eq]
          cast_int_Inr [OF mcc_eq] cast_int_Inr [OF u_eq])
qed

lemma with_columns_Inr:
  assumes "with_columns parse r = Inr s"
  shows "group_key s = raw_dims r"
    and "lf_User s = User r"
    and "has_error s = (Errors r \<noteq> None)"
    and "amount_clean s = (case Amount r of None \<Rightarrow> None | Some a \<Rightarrow> parse (str_replace_all a))"
    and "\<And>a. Amount r = Some a \<Longrightarrow> parse (str_replace_all a) \<noteq> None"
proof -
  from assms obtain a where
    a: "cast_float parse (map_option str_replace_all (Amount r)) = Inr a"
    and s: "s = \<lparr> lf_User = User r, lf_Year = Year r, lf_Month = Month r,
             lf_Use_Chip = Use_Chip r, lf_Merchant_State = Merchant_State r, lf_MCC = MCC r,
             amount_clean = a,
             is_fraud = is_fraud_expr (Is_Fraud r),
             has_error = is_not_null (Errors r) \<rparr>"
    by (rule with_columns_cases)
  show "group_key s = raw_dims r"
    by (simp add: s group_key_def raw_dims_def is_fraud_expr_fraud_flag)
  show "lf_User s = User r" by (simp add: s)
  show "has_error s = (Errors r \<noteq> None)" by (simp add: s is_not_null_def)
  show "amount_clean s = (case Amount r of None \<Rightarrow> None | Some a \<Rightarrow> parse (str_replace_all a))"
    using a by (cases "Amount r") (simp_all add: s cast_float_Inr)
  show "\<And>a. Amount r = Some a \<Longrightarrow> parse (str_replace_all a) \<noteq> None"
    using a by (simp add: cast_float_Inr)
qed

lemma with_columns_Inl:
  assumes "Amount r = Some a" and "parse (str_replace_all a) = None"
  shows "\<exists>e. with_columns parse r = Inl e"
proof (cases "with_columns parse r")
  case (Inl e)
  then show ?thesis by blast
next
  case (Inr s)
  from with_columns_Inr(5) [OF Inr assms(1)] assms(2) show ?thesis by simp
qed

lemma frame_map_Inl:
  assumes "r \<in> set rows" and "f r = Inl e"
  shows "\<exists>e'. frame_map f rows = Inl e'"
proof (cases "frame_map f rows")
  case (Inl e')
  then show ?thesis by blast
next
  case (Inr lf)
  then have "list_all2 (\<lambda>r s. f r = Inr s) rows lf" by (simp add: frame_map_Inr)
  with assms(1) obtain s where "f r = Inr s"
    by (auto simp: list_all2_conv_all_nth in_set_conv_nth)
  with assms(2) show ?thesis by simp
qed

lemma sum_list_non_null:
  fixes vs :: "('b::comm_monoid_add) option list"
  shows "sum_list (non_null vs) = sum_list (map (\<lambda>v. case v of None \<Rightarrow> 0 | Some x \<Rightarrow> x) vs)"
  by (induction vs) (auto simp: non_null_def List.map_filter_simps split: option.splits)

lemma length_non_null: "length (non_null vs) = length (filter (\<lambda>v. v \<noteq> None) vs)"
  by (induction vs) (auto simp: non_null_def List.map_filter_simps split: option.splits)

lemma frame_rows:
  assumes "frame_map (with_columns parse) rows = Inr lf"
  shows "list_all2 (\<lambda>r s. with_columns parse r = Inr s) rows lf"
  using assms by (simp add: frame_map_Inr)

lemma list_all2_filter_length:
  assumes "list_all2 R xs ys" and "\<And>x y. R x y \<Longrightarrow> P x = Q y"
  shows "length (filter P xs) = length (filter Q ys)"
  using assms by (induction rule: list_all2_induct) auto

lemma list_all2_map_eq:
  assumes "list_all2 R xs ys" and "\<And>x y. R x y \<Longrightarrow> f x = g y"
  shows "map f xs = map g ys"
  using assms by (induction rule: list_all2_induct) auto

lemma amounts_of_frame:
  assumes "frame_map (with_columns parse) rows = Inr lf"
  shows "map amount_clean lf
       = map (\<lambda>r. case Amount r of None \<Rightarrow> None | Some a \<Rightarrow> parse (str_replace_all a)) rows"
  by (rule sym, rule list_all2_map_eq [OF frame_rows [OF assms]]) (simp add: with_columns_Inr(4))

lemma parsed_amounts_non_null:
  "parsed_amounts parse rows
     = non_null (map (\<lambda>r. case Amount r of None \<Rightarrow> None | Some a \<Rightarrow> parse (str_replace_all a)) rows)"
  by (induction rows) (auto simp: parsed_amounts_def non_null_def List.map_filter_simps split: option.splits)

lemma total_amount_agg:
  "total_amount (agg g) = sum_list (map (\<lambda>r. case amount_clean r of None \<Rightarrow> 0 | Some x \<Rightarrow> x) (snd g))"
  by (cases g) (auto simp: agg_def col_sum_def sum_list_non_null comp_def)


subsection \<open>Conservation of amount, with exact sums\<close>

lemma amount_conserved_exact:
  fixes parse :: "string \<Rightarrow> ('a::field_char_0) option"
  assumes "build_optimized_pipeline parse rows = Inr cube"
  shows "sum_list (map total_amount cube) = sum_list (parsed_amounts parse rows)"
proof -
  let ?g = "\<lambda>r::'a lf_row. case amount_clean r of None \<Rightarrow> 0 | Some x \<Rightarrow> x"
  from assms obtain lf where lf: "frame_map (with_columns parse) rows = Inr lf"
    and cube: "cube = map agg (group_by lf)"
    by (auto simp: build_optimized_pipeline_def and_then_Inr)
  have "map total_amount cube = map (\<lambda>(k, grp). sum_list (map ?g grp)) (group_by lf)"
    unfolding cube by (simp add: total_amount_agg case_prod_unfold)
  then have "sum_list (map total_amount cube) = sum_list (map ?g lf)"
    by (simp only: sum_list_group_by)
  also have "\<dots> = sum_list (non_null (map amount_clean lf))"
    by (simp add: sum_list_non_null comp_def)
  also have "\<dots> = sum_list (parsed_amounts parse rows)"
    by (simp only: amounts_of_frame [OF lf] parsed_amounts_non_null)
  finally show ?thesis .
qed

subsection \<open>The rows of the cube\<close>

lemma pipeline_cases:
  assumes "build_optimized_pipeline parse rows = Inr cube"
  obtains lf where "frame_map (with_columns parse) rows = Inr lf" and "cube = map agg (group_by lf)"
  using assms by (auto simp: build_optimized_pipeline_def and_then_Inr)

lemma cube_dims_agg: "cube_dims (agg (k, grp)) = k"
  by (cases k) (simp add: agg_def cube_dims_def)

lemma amount_present:
  assumes "with_columns parse r = Inr s"
  shows "amount_clean s \<noteq> None \<longleftrightarrow> Amount r \<noteq> None"
proof (cases "Amount r")
  case None
  then show ?thesis using with_columns_Inr(4) [OF assms] by simp
next
  case (Some a)
  then show ?thesis using with_columns_Inr(4,5) [OF assms] by simp
qed

lemma group_counted:
  assumes "frame_map (with_columns parse) rows = Inr lf"
  shows "length (filter (\<lambda>s. group_key s = k) lf) = counted_rows rows k"
  unfolding counted_rows_def
  by (rule sym, rule list_all2_filter_length [OF frame_rows [OF assms]])
     (simp add: with_columns_Inr(1))

lemma group_priced:
  assumes "frame_map (with_columns parse) rows = Inr lf"
  shows "length (filter (\<lambda>s. group_key s = k \<and> amount_clean s \<noteq> None) lf) = priced_rows rows k"
  unfolding priced_rows_def
proof (rule sym, rule list_all2_filter_length [OF frame_rows [OF assms]])
  fix r s
  assume rs: "with_columns parse r = Inr s"
  show "(raw_dims r = k \<and> Amount r \<noteq> None) = (group_key s = k \<and> amount_clean s \<noteq> None)"
    by (simp only: with_columns_Inr(1) [OF rs] amount_present [OF rs])
qed

lemma cube_row_cases:
  assumes "build_optimized_pipeline parse rows = Inr cube" and "c \<in> set cube"
  obtains lf where "frame_map (with_columns parse) rows = Inr lf"
    and "c = agg (cube_dims c, filter (\<lambda>s. group_key s = cube_dims c) lf)"
    and "cube_dims c \<in> group_key ` set lf"
proof -
  from assms(1) obtain lf where lf: "frame_map (with_columns parse) rows = Inr lf"
    and cube: "cube = map agg (group_by lf)"
    by (rule pipeline_cases)
  from assms(2) obtain k where k: "k \<in> group_key ` set lf"
    and c: "c = agg (k, filter (\<lambda>s. group_key s = k) lf)"
    unfolding cube group_by_def set_map set_remdups image_image by blast
  have "cube_dims c = k" by (simp add: c cube_dims_agg)
  with lf k c that show thesis by simp
qed

lemma agg_measures:
  "total_transactions (agg (k, grp)) = length grp"
  "total_amount (agg (k, grp)) = col_sum (map amount_clean grp)"
  "avg_amount (agg (k, grp)) = col_mean (map amount_clean grp)"
  by (cases k; simp add: agg_def)+

subsection \<open>The mean and the sum\<close>

text \<open>
  C4, as amended. \<open>avg_amount\<close> is \<open>total_amount\<close> divided by the number of rows of the
  group that carry an amount, and null when there is none; \<open>total_transactions\<close> counts
  every row of the group. So \<open>avg_amount\<close> is \<open>total_amount / total_transactions\<close> when
  every row of the group carries an amount. (Exact division; see the introduction.)
\<close>

theorem avg_amount_over_priced_rows:
  fixes parse :: "string \<Rightarrow> ('a::field_char_0) option"
  assumes "build_optimized_pipeline parse rows = Inr cube" and "c \<in> set cube"
  shows "avg_amount c =
           (if priced_rows rows (cube_dims c) = 0 then None
            else Some (total_amount c / of_nat (priced_rows rows (cube_dims c))))
       \<and> total_transactions c = counted_rows rows (cube_dims c)
       \<and> (priced_rows rows (cube_dims c) = counted_rows rows (cube_dims c) \<longrightarrow>
            avg_amount c = Some (total_amount c / of_nat (total_transactions c)))"
proof -
  let ?k = "cube_dims c"
  from assms obtain lf where lf: "frame_map (with_columns parse) rows = Inr lf"
    and c: "c = agg (?k, filter (\<lambda>s. group_key s = ?k) lf)"
    and k: "?k \<in> group_key ` set lf"
    by (rule cube_row_cases)
  define grp where "grp = filter (\<lambda>s. group_key s = ?k) lf"
  have c': "c = agg (?k, grp)" using c by (simp add: grp_def)
  have tt: "total_transactions c = counted_rows rows ?k"
    by (subst c') (simp add: agg_measures grp_def group_counted [OF lf])
  have n: "length (non_null (map amount_clean grp)) = priced_rows rows ?k"
    by (simp add: length_non_null grp_def filter_map comp_def group_priced [OF lf, symmetric])
  have ta: "total_amount c = sum_list (non_null (map amount_clean grp))"
    by (subst c') (simp add: agg_measures col_sum_def)
  have av: "avg_amount c = col_mean (map amount_clean grp)"
    by (subst c') (simp add: agg_measures)
  have avg: "avg_amount c =
           (if priced_rows rows ?k = 0 then None
            else Some (total_amount c / of_nat (priced_rows rows ?k)))"
    unfolding av ta col_mean_def n [symmetric] by simp
  have pos: "0 < counted_rows rows ?k"
  proof -
    from k have "grp \<noteq> []" by (auto simp: grp_def filter_empty_conv)
    moreover have "total_transactions c = length grp" by (subst c') (simp add: agg_measures)
    ultimately show ?thesis using tt by simp
  qed
  show ?thesis using avg tt pos by simp
qed

theorem avg_amount_over_priced_rows_witness:
  "avg_amount (hd example_cube) = Some (total_amount (hd example_cube) / 2)
   \<and> priced_rows example_rows (cube_dims (hd example_cube)) = 2
   \<and> total_transactions (hd example_cube) = 2"
proof -
  have c: "hd example_cube \<in> set example_cube" by (simp add: example_cube_def)
  have p: "priced_rows example_rows (cube_dims (hd example_cube)) = 2"
    by (simp add: priced_rows_def example_rows_def example_cube_def cube_dims_def raw_dims_def
        fraud_flag_def yes_spellings_def row_defs)
  have n: "counted_rows example_rows (cube_dims (hd example_cube)) = 2"
    by (simp add: counted_rows_def example_rows_def example_cube_def cube_dims_def raw_dims_def
        fraud_flag_def yes_spellings_def row_defs)
  show ?thesis
    using avg_amount_over_priced_rows [OF example_pipeline c] p n by simp
qed

text \<open>
  The claim as stated fails on a group with a null amount: two rows, one amount of 10,
  give a total of 10, a mean of 10 and a count of 2.
\<close>

theorem avg_amount_counterexample:
  "build_optimized_pipeline parse_decimal [row_CA_10, row_null_amount] = Inr [cube_null_amount]
   \<and> total_transactions cube_null_amount = 2
   \<and> total_amount cube_null_amount = 10
   \<and> avg_amount cube_null_amount = Some 10
   \<and> avg_amount cube_null_amount
       \<noteq> Some (total_amount cube_null_amount / of_nat (total_transactions cube_null_amount))"
  by (simp add: cube_null_amount_def row_defs eval_defs parse_decimal_examples List.map_filter_simps)

subsection \<open>The fraud flag of a counted row\<close>

lemma list_all2_in_set:
  assumes "list_all2 R xs ys" and "x \<in> set xs"
  obtains y where "y \<in> set ys" and "R x y"
  using assms by (induction rule: list_all2_induct) auto

text \<open>
  C2, as amended. Every raw row is counted in exactly one cube row, the one with the
  row's dimensions. Its \<open>is_fraud\<close> is true when the row's \<^verbatim>\<open>Is Fraud?\<close> is one of the
  eight spellings of \<^verbatim>\<open>yes\<close>, false when it is any other string, and null when it is
  null: a null flag is counted under the null key, not under false.
\<close>

theorem fraud_flag_classification:
  fixes parse :: "string \<Rightarrow> ('a::field_char_0) option"
  assumes "build_optimized_pipeline parse rows = Inr cube" and "r \<in> set rows"
  shows "\<exists>c \<in> set cube.
           cube_dims c = raw_dims r
         \<and> cube_is_fraud c = (case Is_Fraud r of None \<Rightarrow> None | Some s \<Rightarrow> Some (s \<in> yes_spellings))
         \<and> total_transactions c = counted_rows rows (raw_dims r)
         \<and> 1 \<le> counted_rows rows (raw_dims r)
         \<and> (\<forall>c' \<in> set cube. cube_dims c' = raw_dims r \<longrightarrow> c' = c)"
proof -
  let ?k = "raw_dims r"
  from assms(1) obtain lf where lf: "frame_map (with_columns parse) rows = Inr lf"
    and cube: "cube = map agg (group_by lf)"
    by (rule pipeline_cases)
  from frame_rows [OF lf] assms(2) obtain s where s: "s \<in> set lf" and rs: "with_columns parse r = Inr s"
    by (rule list_all2_in_set)
  have ks: "group_key s = ?k" by (rule with_columns_Inr(1) [OF rs])
  define c where "c = agg (?k, filter (\<lambda>s. group_key s = ?k) lf)"
  have "c = agg (group_key s, filter (\<lambda>r. group_key r = group_key s) lf)"
    by (simp add: c_def ks)
  then have cin: "c \<in> set cube"
    unfolding cube group_by_def set_map set_remdups image_image using s by blast
  have dims: "cube_dims c = ?k" by (simp add: c_def cube_dims_agg)
  have flag: "cube_is_fraud c = (case Is_Fraud r of None \<Rightarrow> None | Some s \<Rightarrow> Some (s \<in> yes_spellings))"
    using dims by (simp add: cube_dims_def raw_dims_def fraud_flag_def)
  have tt: "total_transactions c = counted_rows rows ?k"
    by (simp add: c_def agg_measures group_counted [OF lf])
  have "filter (\<lambda>r'. raw_dims r' = ?k) rows \<noteq> []"
    using assms(2) by (auto simp: filter_empty_conv)
  then have pos: "1 \<le> counted_rows rows ?k"
    by (simp add: counted_rows_def Suc_leI)
  have uniq: "c' = c" if "c' \<in> set cube" and "cube_dims c' = ?k" for c'
  proof -
    from assms(1) that(1) obtain lf' where lf': "frame_map (with_columns parse) rows = Inr lf'"
      and c': "c' = agg (cube_dims c', filter (\<lambda>s. group_key s = cube_dims c') lf')"
      by (rule cube_row_cases)
    from lf lf' have "lf' = lf" by simp
    with c' that(2) show ?thesis by (simp add: c_def)
  qed
  from cin dims flag tt pos uniq show ?thesis by blast
qed

theorem fraud_flag_classification_witness:
  "\<exists>c \<in> set example_cube. cube_is_fraud c = Some False \<and> total_transactions c = 2"
proof -
  have r: "row_CA_10 \<in> set example_rows" by (simp add: example_rows_def)
  have n: "counted_rows example_rows (raw_dims row_CA_10) = 2"
    by (simp add: counted_rows_def example_rows_def raw_dims_def fraud_flag_def yes_spellings_def row_defs)
  have f: "Is_Fraud row_CA_10 = Some ''No''" by (simp add: row_defs)
  from fraud_flag_classification [OF example_pipeline r]
  obtain c where "c \<in> set example_cube" 
    and "cube_is_fraud c = (case Is_Fraud row_CA_10 of None \<Rightarrow> None | Some s \<Rightarrow> Some (s \<in> yes_spellings))"
    and "total_transactions c = counted_rows example_rows (raw_dims row_CA_10)"
    by blast
  then show ?thesis using n f by (auto simp: yes_spellings_def)
qed

text \<open>
  The claim as stated fails on a null flag: the only cube row of a frame whose only
  row has a null \<^verbatim>\<open>Is Fraud?\<close> has a null \<open>is_fraud\<close>.
\<close>

theorem null_fraud_flag_counterexample:
  "build_optimized_pipeline parse_decimal [row_null_flag] = Inr [cube_null_flag]
   \<and> Is_Fraud row_null_flag = None
   \<and> cube_is_fraud cube_null_flag = None
   \<and> cube_is_fraud cube_null_flag \<noteq> Some False
   \<and> total_transactions cube_null_flag = 1"
  by (simp add: cube_null_flag_def row_defs eval_defs parse_decimal_examples List.map_filter_simps)

subsection \<open>The cube does not depend on the order of the rows\<close>

lemma frame_map_total:
  assumes "\<And>r. r \<in> set rows \<Longrightarrow> \<exists>s. f r = Inr s"
  shows "frame_map f rows = Inr (map (\<lambda>r. projr (f r)) rows)"
  using assms
proof (induction rows)
  case Nil
  then show ?case by simp
next
  case (Cons r rs)
  from Cons.prems [of r] obtain s where s: "f r = Inr s" by auto
  have "frame_map f rs = Inr (map (\<lambda>r. projr (f r)) rs)"
    by (rule Cons.IH) (simp add: Cons.prems)
  then show ?case by (simp add: s and_then_def)
qed

lemma frame_map_Inr_iff:
  "frame_map f rows = Inr lf \<longleftrightarrow>
     (\<forall>r \<in> set rows. \<exists>s. f r = Inr s) \<and> lf = map (\<lambda>r. projr (f r)) rows"
proof
  assume lf: "frame_map f rows = Inr lf"
  then have all2: "list_all2 (\<lambda>r s. f r = Inr s) rows lf" by (simp add: frame_map_Inr)
  have ok: "\<forall>r \<in> set rows. \<exists>s. f r = Inr s"
  proof
    fix r assume "r \<in> set rows"
    with all2 obtain s where "f r = Inr s" by (rule list_all2_in_set)
    then show "\<exists>s. f r = Inr s" by blast
  qed
  then have "frame_map f rows = Inr (map (\<lambda>r. projr (f r)) rows)"
    by (intro frame_map_total) blast
  with lf ok show "(\<forall>r \<in> set rows. \<exists>s. f r = Inr s) \<and> lf = map (\<lambda>r. projr (f r)) rows"
    by simp
next
  assume "(\<forall>r \<in> set rows. \<exists>s. f r = Inr s) \<and> lf = map (\<lambda>r. projr (f r)) rows"
  then show "frame_map f rows = Inr lf" by (simp add: frame_map_total)
qed

lemma frame_map_perm:
  assumes "mset rows' = mset rows" and "frame_map f rows = Inr lf"
  obtains lf' where "frame_map f rows' = Inr lf'" and "mset lf' = mset lf"
proof -
  from assms(2) have ok: "\<forall>r \<in> set rows. \<exists>s. f r = Inr s"
    and lf: "lf = map (\<lambda>r. projr (f r)) rows"
    by (simp_all add: frame_map_Inr_iff)
  have "set rows' = set rows" using assms(1) by (rule mset_eq_setD)
  with ok have "frame_map f rows' = Inr (map (\<lambda>r. projr (f r)) rows')"
    by (simp add: frame_map_Inr_iff)
  moreover have "mset (map (\<lambda>r. projr (f r)) rows') = mset lf"
    by (simp add: lf assms(1))
  ultimately show thesis by (rule that)
qed

lemma agg_mset_cong:
  fixes grp :: "('a::field_char_0) lf_row list"
  assumes "mset grp' = mset grp"
  shows "agg (k, grp') = agg (k, grp)"
proof -
  have len: "length grp' = length grp" using assms by (rule mset_eq_length)
  have amounts: "mset (non_null (map amount_clean grp')) = mset (non_null (map amount_clean grp))"
  proof -
    have "mset (non_null (map amount_clean xs))
        = image_mset the (filter_mset (\<lambda>v. v \<noteq> None) (image_mset amount_clean (mset xs)))"
      for xs :: "'a lf_row list"
      by (induction xs) (auto simp: non_null_def List.map_filter_simps split: option.splits)
    then show ?thesis by (simp only: assms)
  qed
  have sum: "sum_list (non_null (map amount_clean grp')) = sum_list (non_null (map amount_clean grp))"
    using amounts by (metis sum_mset_sum_list)
  have nn: "length (non_null (map amount_clean grp')) = length (non_null (map amount_clean grp))"
    using amounts by (rule mset_eq_length)
  have err: "length (filter has_error grp') = length (filter has_error grp)"
    using assms by (metis mset_filter size_mset)
  have users: "n_unique (map lf_User grp') = n_unique (map lf_User grp)"
  proof -
    have "set grp' = set grp" using assms by (rule mset_eq_setD)
    then show ?thesis by (simp add: n_unique_def length_remdups_card_conv)
  qed
  have mean: "col_mean (map amount_clean grp') = col_mean (map amount_clean grp)"
    unfolding col_mean_def sum nn using nn by (metis length_0_conv)
  show ?thesis
    by (cases k) (simp add: agg_def len col_sum_def sum mean err users)
qed

lemma cube_perm:
  fixes lf :: "('a::field_char_0) lf_row list"
  assumes "mset lf' = mset lf"
  shows "set (map agg (group_by lf')) = set (map agg (group_by lf))"
proof -
  have s: "set lf' = set lf" using assms by (rule mset_eq_setD)
  have g: "agg (k, filter (\<lambda>r. group_key r = k) lf') = agg (k, filter (\<lambda>r. group_key r = k) lf)" for k
    by (rule agg_mset_cong) (simp add: assms)
  show ?thesis
    unfolding group_by_def set_map set_remdups image_image s g ..
qed

lemma pipeline_perm:
  fixes parse :: "string \<Rightarrow> ('a::field_char_0) option"
  assumes "mset rows' = mset rows" and "build_optimized_pipeline parse rows = Inr cube"
  obtains cube' where "build_optimized_pipeline parse rows' = Inr cube'" and "set cube' = set cube"
proof -
  from assms(2) obtain lf where lf: "frame_map (with_columns parse) rows = Inr lf"
    and cube: "cube = map agg (group_by lf)"
    by (rule pipeline_cases)
  from assms(1) lf obtain lf' where lf': "frame_map (with_columns parse) rows' = Inr lf'"
    and m: "mset lf' = mset lf"
    by (rule frame_map_perm)
  have "build_optimized_pipeline parse rows' = Inr (map agg (group_by lf'))"
    by (simp add: build_optimized_pipeline_def lf' and_then_def)
  moreover have "set (map agg (group_by lf')) = set cube"
    unfolding cube by (rule cube_perm [OF m])
  ultimately show thesis by (rule that)
qed

lemma pipeline_perm_Inl:
  fixes parse :: "string \<Rightarrow> ('a::field_char_0) option"
  assumes "mset rows' = mset rows" and "build_optimized_pipeline parse rows = Inl e"
  shows "\<exists>e'. build_optimized_pipeline parse rows' = Inl e'"
proof (cases "build_optimized_pipeline parse rows'")
  case (Inl e')
  then show ?thesis by blast
next
  case (Inr cube')
  from assms(1) [symmetric] Inr obtain cube where "build_optimized_pipeline parse rows = Inr cube"
    by (rule pipeline_perm)
  with assms(2) show ?thesis by simp
qed

subsection \<open>What a run of \<open>main\<close> leaves behind\<close>

lemma fair_id: "fair id"
  by (simp add: fair_def)

lemma fair_rev: "fair rev"
  by (simp add: fair_def)

lemma log_logger: "log (logger l w) = log w @ [l]"
  and csv_files_logger: "csv_files (logger l w) = csv_files w"
  and parquet_files_logger: "parquet_files (logger l w) = parquet_files w"
  and dirs_logger: "dirs (logger l w) = dirs w"
  by (simp_all add: logger_def)

lemmas logger_simps = log_logger csv_files_logger parquet_files_logger dirs_logger

lemma sink_parquet_Inr:
  fixes eng :: "('a::field_char_0) engine"
  assumes "sink_supported eng" and "csv_files w (input_file config) = Some rows"
    and "build_optimized_pipeline (parse_float eng) (stream_order eng rows) = Inr cube"
  shows "sink_parquet eng config w
           = Inr (w\<lparr>parquet_files := (parquet_files w)(output_cube config \<mapsto> cube)\<rparr>)"
  using assms by (simp add: sink_parquet_def scan_csv_def and_then_def)

lemma sink_parquet_Inl:
  fixes eng :: "('a::field_char_0) engine"
  assumes "\<not> sink_supported eng \<or> csv_files w (input_file config) = None
           \<or> (\<exists>rows e. csv_files w (input_file config) = Some rows
                \<and> build_optimized_pipeline (parse_float eng) (stream_order eng rows) = Inl e)"
  shows "\<exists>e. sink_parquet eng config w = Inl e"
  using assms by (auto simp: sink_parquet_def scan_csv_def and_then_def)

lemma collect_Some:
  fixes eng :: "('a::field_char_0) engine"
  assumes "csv_files w (input_file config) = Some rows"
  shows "collect eng config w = build_optimized_pipeline (parse_float eng) (collect_order eng rows)"
  using assms by (simp add: collect_def scan_csv_def and_then_def)

lemma collect_None:
  fixes eng :: "('a::field_char_0) engine"
  assumes "csv_files w (input_file config) = None"
  shows "collect eng config w = Inl FileNotFoundError"
  using assms by (simp add: collect_def scan_csv_def and_then_def)

lemma main_body_unfold:
  "main_body eng config w0 =
     (case sink_parquet eng config (before_sink config w0) of
        Inr w5 \<Rightarrow> finished w5
      | Inl e \<Rightarrow>
          (case collect eng config (logger WARNING (before_sink config w0)) of
             Inr result \<Rightarrow> finished (write_parquet config result (logger WARNING (before_sink config w0)))
           | Inl e' \<Rightarrow> (SysExit 1, logger ERROR (logger WARNING (before_sink config w0)))))"
  by (simp add: main_body_def before_sink_def Let_def split: sum.splits)

lemma before_sink_simps:
  "csv_files (before_sink config w) = csv_files w"
  "parquet_files (before_sink config w) = parquet_files w"
  "log (before_sink config w) = log w @ [INFO, INFO, INFO, INFO, INFO, INFO]"
  by (simp_all add: before_sink_def logger_def)

lemma finished_simps:
  "fst (finished w) = Returned"
  "parquet_files (snd (finished w)) = parquet_files w"
  "log (snd (finished w)) = log w @ [INFO, INFO, INFO, INFO, INFO]"
  by (simp_all add: finished_def logger_def)


lemma main_body_fails:
  fixes eng :: "('a::field_char_0) engine"
  assumes "fair (stream_order eng)" and "fair (collect_order eng)"
    and "csv_files w (input_file config) = None
         \<or> (\<exists>rows e. csv_files w (input_file config) = Some rows
              \<and> build_optimized_pipeline (parse_float eng) rows = Inl e)"
  shows "fst (main_body eng config w) = SysExit 1
       \<and> parquet_files (snd (main_body eng config w)) = parquet_files w
       \<and> last (log (snd (main_body eng config w))) = ERROR"
proof -
  let ?w4 = "before_sink config w"
  let ?w5 = "logger WARNING ?w4"
  have sink: "\<exists>e. sink_parquet eng config ?w4 = Inl e"
  proof (rule sink_parquet_Inl)
    from assms(3) show "\<not> sink_supported eng \<or> csv_files ?w4 (input_file config) = None
           \<or> (\<exists>rows e. csv_files ?w4 (input_file config) = Some rows
                \<and> build_optimized_pipeline (parse_float eng) (stream_order eng rows) = Inl e)"
    proof
      assume "csv_files w (input_file config) = None"
      then show ?thesis by (simp add: before_sink_simps)
    next
      assume "\<exists>rows e. csv_files w (input_file config) = Some rows
              \<and> build_optimized_pipeline (parse_float eng) rows = Inl e"
      then obtain rows e where rows: "csv_files w (input_file config) = Some rows"
        and e: "build_optimized_pipeline (parse_float eng) rows = Inl e" by blast
      have "mset (stream_order eng rows) = mset rows" using assms(1) by (simp add: fair_def)
      from pipeline_perm_Inl [OF this e] rows show ?thesis
        by (simp add: before_sink_simps)
    qed
  qed
  have coll: "\<exists>e. collect eng config ?w5 = Inl e"
    using assms(3)
  proof
    assume "csv_files w (input_file config) = None"
    then have "csv_files ?w5 (input_file config) = None" by (simp add: before_sink_simps logger_simps)
    then show ?thesis by (simp add: collect_None)
  next
    assume "\<exists>rows e. csv_files w (input_file config) = Some rows
            \<and> build_optimized_pipeline (parse_float eng) rows = Inl e"
    then obtain rows e where rows: "csv_files w (input_file config) = Some rows"
      and e: "build_optimized_pipeline (parse_float eng) rows = Inl e" by blast
    have "mset (collect_order eng rows) = mset rows" using assms(2) by (simp add: fair_def)
    from pipeline_perm_Inl [OF this e] obtain e' where
      "build_optimized_pipeline (parse_float eng) (collect_order eng rows) = Inl e'" by blast
    moreover have "csv_files ?w5 (input_file config) = Some rows"
      using rows by (simp add: before_sink_simps logger_simps)
    ultimately show ?thesis by (simp add: collect_Some)
  qed
  from sink coll have "main_body eng config w = (SysExit 1, logger ERROR ?w5)"
    by (auto simp: main_body_unfold)
  then show ?thesis by (simp add: logger_simps before_sink_simps)
qed

lemma main_body_succeeds:
  fixes eng :: "('a::field_char_0) engine"
  assumes "fair (stream_order eng)" and "fair (collect_order eng)"
    and "csv_files w (input_file config) = Some rows"
    and "build_optimized_pipeline (parse_float eng) rows = Inr cube"
  shows "fst (main_body eng config w) = Returned
       \<and> (\<exists>result. parquet_files (snd (main_body eng config w))
                      = (parquet_files w)(output_cube config \<mapsto> result)
                  \<and> set result = set cube)
       \<and> ERROR \<notin> set (drop (length (log w)) (log (snd (main_body eng config w))))"
proof -
  let ?w4 = "before_sink config w"
  let ?w5 = "logger WARNING ?w4"
  have csv4: "csv_files ?w4 (input_file config) = Some rows"
    and csv5: "csv_files ?w5 (input_file config) = Some rows"
    using assms(3) by (simp_all add: before_sink_simps logger_simps)
  have "mset (stream_order eng rows) = mset rows" using assms(1) by (simp add: fair_def)
  from this assms(4) obtain cube_s where
    cs: "build_optimized_pipeline (parse_float eng) (stream_order eng rows) = Inr cube_s"
    and set_s: "set cube_s = set cube" by (rule pipeline_perm)
  have "mset (collect_order eng rows) = mset rows" using assms(2) by (simp add: fair_def)
  from this assms(4) obtain cube_c where
    cc: "build_optimized_pipeline (parse_float eng) (collect_order eng rows) = Inr cube_c"
    and set_c: "set cube_c = set cube" by (rule pipeline_perm)
  show ?thesis
  proof (cases "sink_supported eng")
    case True
    have "main_body eng config w
            = finished (?w4\<lparr>parquet_files := (parquet_files ?w4)(output_cube config \<mapsto> cube_s)\<rparr>)"
      by (simp add: main_body_unfold sink_parquet_Inr [OF True csv4 cs])
    then show ?thesis using set_s
      by (auto simp: finished_simps before_sink_simps)
  next
    case False
    then have "sink_parquet eng config ?w4 = Inl SinkUnsupported" by (simp add: sink_parquet_def)
    then have "main_body eng config w = finished (write_parquet config cube_c ?w5)"
      by (simp add: main_body_unfold collect_Some [OF csv5] cc)
    then show ?thesis using set_c
      by (auto simp: finished_simps write_parquet_def before_sink_simps logger_simps)
  qed
qed

subsection \<open>An amount that is no number\<close>

lemma default_config:
  "ETLConfig_init no_kwargs
     = Inr \<lparr> input_file = ''data/credit_card.csv'', output_cube = ''data/bi_cube.parquet'',
             output_summaries_dir = ''data/summaries'', compression = Zstd, streaming = True \<rparr>"
  by (simp add: ETLConfig_init_def no_kwargs_def and_then_def)

lemma main_default:
  "main eng w = main_body eng \<lparr> input_file = ''data/credit_card.csv'', output_cube = ''data/bi_cube.parquet'',
             output_summaries_dir = ''data/summaries'', compression = Zstd, streaming = True \<rparr> w"
  by (simp add: main_def main_with_def default_config)

lemma bad_amount_fails:
  fixes parse :: "string \<Rightarrow> ('a::field_char_0) option"
  assumes "r \<in> set rows" and "Amount r = Some a" and "parse (str_replace_all a) = None"
  shows "\<exists>e. build_optimized_pipeline parse rows = Inl e"
proof -
  from with_columns_Inl [of r a parse, OF assms(2,3)] obtain e where e: "with_columns parse r = Inl e" ..
  from frame_map_Inl [of r rows "with_columns parse" e, OF assms(1) e] obtain e' where "frame_map (with_columns parse) rows = Inl e'" ..
  then show ?thesis by (simp add: build_optimized_pipeline_def and_then_def)
qed

lemma example_engine_simps:
  "parse_float example_engine = parse_decimal" "sink_supported example_engine"
  "stream_order example_engine = id" "collect_order example_engine = rev"
  by (simp_all add: example_engine_def)

lemma bad_amount_pipeline:
  "build_optimized_pipeline parse_decimal [row_CA_10, row_bad_amount] = Inl InvalidOperationError"
  "build_optimized_pipeline parse_decimal [row_bad_amount, row_CA_10] = Inl InvalidOperationError"
  by (simp_all add: row_defs eval_defs parse_decimal_examples)

lemma unparsable_amount_aborts:
  fixes eng :: "('a::field_char_0) engine"
  assumes "fair (stream_order eng)" and "fair (collect_order eng)"
    and "csv_files w ''data/credit_card.csv'' = Some rows"
    and "r \<in> set rows" and "Amount r = Some a" and "parse_float eng (str_replace_all a) = None"
  shows "(\<exists>e. build_optimized_pipeline (parse_float eng) rows = Inl e)
       \<and> fst (main eng w) = SysExit 1
       \<and> parquet_files (snd (main eng w)) = parquet_files w
       \<and> last (log (snd (main eng w))) = ERROR"
proof -
  from assms(4-6) have e: "\<exists>e. build_optimized_pipeline (parse_float eng) rows = Inl e"
    by (rule bad_amount_fails)
  let ?config = "\<lparr> input_file = ''data/credit_card.csv'', output_cube = ''data/bi_cube.parquet'',
             output_summaries_dir = ''data/summaries'', compression = Zstd, streaming = True \<rparr>"
  have "csv_files w (input_file ?config) = None
         \<or> (\<exists>rows e. csv_files w (input_file ?config) = Some rows
              \<and> build_optimized_pipeline (parse_float eng) rows = Inl e)"
    using assms(3) e by simp
  from main_body_fails [OF assms(1,2) this] e show ?thesis
    by (simp only: main_default) 
qed



text \<open>
  C3. The claim is that an \<^verbatim>\<open>Amount\<close> string which, stripped of \<open>$\<close> and \<open>,\<close>, is no
  floating-point number is treated as a null and the run completes, as the scan does
  (\<^verbatim>\<open>ignore_errors=True\<close>) for a field it cannot read. The cast of lines 84-87 is strict
  instead. On a frame of two rows, the second with the amount \<^verbatim>\<open>$N/A\<close>, the sink raises,
  the in-memory path raises on the same row, no cube is written, and \<^verbatim>\<open>main\<close> logs an
  error and exits with status 1.
\<close>

theorem unparsable_amount_run:
  "fst (main example_engine (example_world [row_CA_10, row_bad_amount])) = SysExit 1
   \<and> parquet_files (snd (main example_engine (example_world [row_CA_10, row_bad_amount])))
         ''data/bi_cube.parquet'' = None
   \<and> log (snd (main example_engine (example_world [row_CA_10, row_bad_amount])))
         = [INFO, INFO, INFO, INFO, INFO, INFO, WARNING, ERROR]"
proof -
  let ?config = "\<lparr> input_file = ''data/credit_card.csv'', output_cube = ''data/bi_cube.parquet'',
             output_summaries_dir = ''data/summaries'', compression = Zstd, streaming = True \<rparr>"
  let ?w = "example_world [row_CA_10, row_bad_amount] :: rat world"
  have csv: "csv_files ?w ''data/credit_card.csv'' = Some [row_CA_10, row_bad_amount]"
    and pq: "parquet_files ?w = Map.empty" and lg: "log ?w = []"
    by (simp_all add: example_world_def)
  have s: "sink_parquet example_engine ?config (before_sink ?config ?w) = Inl InvalidOperationError"
    by (simp add: sink_parquet_def scan_csv_def and_then_def before_sink_simps csv
        example_engine_simps bad_amount_pipeline)
  have c: "collect example_engine ?config (logger WARNING (before_sink ?config ?w))
             = Inl InvalidOperationError"
    by (simp add: collect_def scan_csv_def and_then_def before_sink_simps logger_simps csv
        example_engine_simps bad_amount_pipeline)
  have "main example_engine ?w = (SysExit 1, logger ERROR (logger WARNING (before_sink ?config ?w)))"
    by (simp add: main_default main_body_unfold s c)
  then show ?thesis
    by (simp add: logger_simps before_sink_simps pq lg)
qed

subsection \<open>Configuration\<close>

text \<open>
  C8. A \<^verbatim>\<open>compression\<close> argument that is none of \<^verbatim>\<open>zstd\<close>, \<^verbatim>\<open>snappy\<close>, \<^verbatim>\<open>lz4\<close> makes the
  constructor of \<^verbatim>\<open>ETLConfig\<close> raise; \<^verbatim>\<open>main\<close> builds the configuration before anything
  else, so the run ends there with the world untouched: nothing read, logged, made or
  written.
\<close>

theorem invalid_compression_fails_fast:
  fixes eng :: "('a::field_char_0) engine"
  assumes "kw_compression kw = Some s" and "s \<notin> {''zstd'', ''snappy'', ''lz4''}"
  shows "ETLConfig_init kw = Inl ValidationError
       \<and> main_with kw eng w = (Uncaught ValidationError, w)"
proof -
  from assms(2) have "validate_compression s = Inl ValidationError"
    by (simp add: validate_compression_def)
  then have "ETLConfig_init kw = Inl ValidationError"
    by (simp add: ETLConfig_init_def assms(1) and_then_def)
  then show ?thesis by (simp add: main_with_def)
qed

theorem invalid_compression_fails_fast_witness:
  "ETLConfig_init (no_kwargs\<lparr>kw_compression := Some ''gzip''\<rparr>) = Inl ValidationError
   \<and> main_with (no_kwargs\<lparr>kw_compression := Some ''gzip''\<rparr>) example_engine
        (example_world example_rows)
      = (Uncaught ValidationError, example_world example_rows)"
proof -
  have k: "kw_compression (no_kwargs\<lparr>kw_compression := Some ''gzip''\<rparr>) = Some ''gzip''"
    by simp
  have n: "''gzip'' \<notin> {''zstd'', ''snappy'', ''lz4''}" by simp
  from invalid_compression_fails_fast [OF k n] show ?thesis .
qed

subsection \<open>Two runs on the same input\<close>

lemma main_outcome_cases:
  fixes eng :: "('a::field_char_0) engine"
  assumes "fair (stream_order eng)" and "fair (collect_order eng)"
  obtains
    (fails) "fst (main eng w) = SysExit 1" and "parquet_files (snd (main eng w)) = parquet_files w"
      and "csv_files w ''data/credit_card.csv'' = None
           \<or> (\<exists>rows e. csv_files w ''data/credit_card.csv'' = Some rows
                \<and> build_optimized_pipeline (parse_float eng) rows = Inl e)"
  | (succeeds) rows cube result where "csv_files w ''data/credit_card.csv'' = Some rows"
      and "build_optimized_pipeline (parse_float eng) rows = Inr cube"
      and "fst (main eng w) = Returned"
      and "parquet_files (snd (main eng w)) = (parquet_files w)(''data/bi_cube.parquet'' \<mapsto> result)"
      and "set result = set cube"
proof -
  let ?config = "\<lparr> input_file = ''data/credit_card.csv'', output_cube = ''data/bi_cube.parquet'',
             output_summaries_dir = ''data/summaries'', compression = Zstd, streaming = True \<rparr>"
  consider (none) "csv_files w ''data/credit_card.csv'' = None"
    | (bad) rows e where "csv_files w ''data/credit_card.csv'' = Some rows"
        "build_optimized_pipeline (parse_float eng) rows = Inl e"
    | (good) rows cube where "csv_files w ''data/credit_card.csv'' = Some rows"
        "build_optimized_pipeline (parse_float eng) rows = Inr cube"
  proof (cases "csv_files w ''data/credit_card.csv''")
    case None
    then show ?thesis by (rule none)
  next
    case (Some rows)
    show ?thesis
    proof (cases "build_optimized_pipeline (parse_float eng) rows")
      case (Inl e)
      with Some show ?thesis by (rule bad)
    next
      case (Inr cube)
      with Some show ?thesis by (rule good)
    qed
  qed
  then show thesis
  proof cases
    case none
    then have h: "csv_files w (input_file ?config) = None
         \<or> (\<exists>rows e. csv_files w (input_file ?config) = Some rows
              \<and> build_optimized_pipeline (parse_float eng) rows = Inl e)" by simp
    from main_body_fails [OF assms h] none show thesis
      by (intro fails) (simp_all only: main_default simp_thms)
  next
    case bad
    then have h: "csv_files w (input_file ?config) = None
         \<or> (\<exists>rows e. csv_files w (input_file ?config) = Some rows
              \<and> build_optimized_pipeline (parse_float eng) rows = Inl e)" by simp
    from bad have h': "csv_files w ''data/credit_card.csv'' = None
           \<or> (\<exists>rows e. csv_files w ''data/credit_card.csv'' = Some rows
                \<and> build_optimized_pipeline (parse_float eng) rows = Inl e)" by blast
    from main_body_fails [OF assms h] h' show thesis
      by (intro fails) (simp_all only: main_default simp_thms)
  next
    case good
    have c: "csv_files w (input_file ?config) = Some rows" using good(1) by simp
    from main_body_succeeds [OF assms c good(2)] obtain result where
      "fst (main eng w) = Returned"
      "parquet_files (snd (main eng w)) = (parquet_files w)(''data/bi_cube.parquet'' \<mapsto> result)"
      "set result = set cube"
      by (auto simp: main_default)
    with good show thesis by (rule succeeds)
  qed
qed

text \<open>
  C9. Two runs on the same input: two engines with the same float parser, each free to
  consume the scanned rows in its own order and to have or not to have a working
  streaming sink. Both runs end the same way, and every Parquet file holds the same
  set of cube rows after one as after the other. (Amounts are added exactly, so the
  summation-order effects that the claim sets aside do not arise; see the introduction.)
\<close>

theorem runs_agree:
  fixes eng1 eng2 :: "('a::field_char_0) engine"
  assumes "fair (stream_order eng1)" and "fair (collect_order eng1)"
    and "fair (stream_order eng2)" and "fair (collect_order eng2)"
    and "parse_float eng2 = parse_float eng1"
  shows "fst (main eng1 w) = fst (main eng2 w)
       \<and> (\<forall>p. map_option set (parquet_files (snd (main eng1 w)) p)
              = map_option set (parquet_files (snd (main eng2 w)) p))"
proof -
  show ?thesis
  proof (cases rule: main_outcome_cases [where eng = eng1 and w = w, OF assms(1,2), case_names fails succeeds])
    case fails
    show ?thesis
    proof (cases rule: main_outcome_cases [where eng = eng2 and w = w, OF assms(3,4), case_names fails succeeds])
      case fails2: fails
      with fails show ?thesis by simp
    next
      case (succeeds rows cube result)
      with fails(3) assms(5) show ?thesis by auto
    qed
  next
    case (succeeds rows cube result)
    show ?thesis
    proof (cases rule: main_outcome_cases [where eng = eng2 and w = w, OF assms(3,4), case_names fails succeeds])
      case fails
      with succeeds(1,2) assms(5) show ?thesis by auto
    next
      case succeeds2: (succeeds rows2 cube2 result2)
      from succeeds(1,2) succeeds2(1,2) assms(5) have "cube2 = cube" by simp
      with succeeds succeeds2 show ?thesis by simp
    qed
  qed
qed


lemma other_engine_simps:
  "parse_float other_engine = parse_decimal" "\<not> sink_supported other_engine"
  "stream_order other_engine = rev" "collect_order other_engine = id"
  by (simp_all add: other_engine_def)

lemma example_run:
  fixes eng :: "rat engine"
  assumes "fair (stream_order eng)" and "fair (collect_order eng)" and "parse_float eng = parse_decimal"
  shows "fst (main eng (example_world example_rows)) = Returned"
proof -
  let ?config = "\<lparr> input_file = ''data/credit_card.csv'', output_cube = ''data/bi_cube.parquet'',
             output_summaries_dir = ''data/summaries'', compression = Zstd, streaming = True \<rparr>"
  have c: "csv_files (example_world example_rows) (input_file ?config) = Some example_rows"
    by (simp add: example_world_def)
  have p: "build_optimized_pipeline (parse_float eng) example_rows = Inr example_cube"
    by (simp only: assms(3) example_pipeline)
  from main_body_succeeds [OF assms(1,2) c p] show ?thesis
    by (simp only: main_default)
qed

theorem runs_agree_witness:
  "fst (main example_engine (example_world example_rows)) = Returned
   \<and> fst (main other_engine (example_world example_rows)) = Returned
   \<and> map_option set (parquet_files (snd (main example_engine (example_world example_rows)))
                       ''data/bi_cube.parquet'')
     = map_option set (parquet_files (snd (main other_engine (example_world example_rows)))
                       ''data/bi_cube.parquet'')"
proof -
  have f1: "fair (stream_order example_engine)" "fair (collect_order example_engine)"
    by (simp_all add: example_engine_simps fair_id fair_rev)
  have f2: "fair (stream_order other_engine)" "fair (collect_order other_engine)"
    by (simp_all add: other_engine_simps fair_id fair_rev)
  have p: "parse_float other_engine = parse_float example_engine"
    by (simp add: example_engine_simps other_engine_simps)
  have r1: "fst (main example_engine (example_world example_rows)) = Returned"
    by (rule example_run [OF f1]) (simp add: example_engine_simps)
  have r2: "fst (main other_engine (example_world example_rows)) = Returned"
    by (rule example_run [OF f2]) (simp add: other_engine_simps)
  from runs_agree [OF f1 f2 p, of "example_world example_rows"] r1 r2 show ?thesis
    by blast
qed

subsection \<open>The two write paths\<close>


lemma collect_cases:
  fixes eng :: "('a::field_char_0) engine"
  assumes "collect eng config w = Inr result"
  obtains rows where "csv_files w (input_file config) = Some rows"
    and "build_optimized_pipeline (parse_float eng) (collect_order eng rows) = Inr result"
proof -
  from assms obtain rows where rows: "csv_files w (input_file config) = Some rows"
    by (cases "csv_files w (input_file config)") (simp_all add: collect_None)
  with assms have "build_optimized_pipeline (parse_float eng) (collect_order eng rows) = Inr result"
    by (simp add: collect_Some)
  with rows show thesis by (rule that)
qed






subsection \<open>\<open>Float32\<close> rounding and the accuracy of its sum\<close>

lemma bit_length_upper: "n < 2 ^ bit_length n"
proof (induction n rule: bit_length.induct)
  case (1 n)
  show ?case
  proof (cases "n = 0")
    case True
    then show ?thesis by (simp add: bit_length.simps)
  next
    case False
    then have "n div 2 < 2 ^ bit_length (n div 2)" by (rule "1.IH")
    then have "n < 2 * 2 ^ bit_length (n div 2)" by linarith
    with False show ?thesis by (subst bit_length.simps) simp
  qed
qed

lemma bit_length_lower: "0 < n \<Longrightarrow> 2 ^ (bit_length n - 1) \<le> n"
proof (induction n rule: bit_length.induct)
  case (1 n)
  then have n: "n \<noteq> 0" by simp
  show ?case
  proof (cases "n div 2 = 0")
    case True
    then have "bit_length (n div 2) = 0" by (simp add: bit_length.simps)
    with n have "bit_length n = 1" by (subst bit_length.simps) simp
    with 1 show ?thesis by simp
  next
    case False
    then have pos: "0 < n div 2" by simp
    from "1.IH" [OF n pos] have ih: "2 ^ (bit_length (n div 2) - 1) \<le> n div 2" .
    have bl: "bit_length n = Suc (bit_length (n div 2))" using n by (subst bit_length.simps) simp
    have "0 < bit_length (n div 2)" using False by (subst bit_length.simps) simp
    then have "(2::nat) ^ (bit_length n - 1) = 2 * 2 ^ (bit_length (n div 2) - 1)"
      by (cases "bit_length (n div 2)") (simp_all add: bl)
    also have "\<dots> \<le> 2 * (n div 2)" using ih by simp
    also have "\<dots> \<le> n" by simp
    finally show ?thesis .
  qed
qed

lemma round_half_even_error: "\<bar>of_int (round_half_even q) - q\<bar> \<le> 1 / 2"
proof -
  define f where "f = \<lfloor>q\<rfloor>"
  define d where "d = q - of_int f"
  have d: "0 \<le> d" "d < 1" unfolding d_def f_def by linarith+
  have q: "q = of_int f + d" by (simp add: d_def)
  consider "d < 1 / 2" | "1 / 2 < d" | "d = 1 / 2" by linarith
  then show ?thesis
  proof cases
    case 1
    then have "round_half_even q = f" by (simp add: round_half_even_def Let_def f_def d_def)
    with 1 d show ?thesis by (simp add: q)
  next
    case 2
    then have "round_half_even q = f + 1" by (simp add: round_half_even_def Let_def f_def d_def)
    with 2 d show ?thesis by (simp add: q abs_if)
  next
    case 3
    then have "round_half_even q = f \<or> round_half_even q = f + 1"
      by (simp add: round_half_even_def Let_def f_def d_def)
    with 3 show ?thesis by (auto simp: q)
  qed
qed

lemma f32_exponent_le:
  assumes "x \<noteq> 0"
  shows "2 powi (f32_exponent x) \<le> \<bar>x\<bar>"
proof (cases "1 \<le> \<bar>x\<bar>")
  case True
  define n where "n = nat \<lfloor>\<bar>x\<bar>\<rfloor>"
  have n1: "0 < n" using True by (simp add: n_def)
  have a: "of_nat n \<le> \<bar>x\<bar>" using True by (simp add: n_def)
  have b: "(2::rat) ^ (bit_length n - 1) \<le> of_nat n"
    using bit_length_lower [OF n1] by (metis of_nat_le_iff of_nat_numeral of_nat_power)
  have c: "(2::rat) ^ (bit_length n - 1) \<le> \<bar>x\<bar>" by (rule order_trans [OF b a])
  have "0 < bit_length n" using n1 by (subst bit_length.simps) simp
  then have e: "f32_exponent x = int (bit_length n - 1)"
    using True by (simp add: f32_exponent_def n_def)
  show ?thesis unfolding e power_int_of_nat by (rule c)
next
  case False
  define k where "k = nat (\<lceil>1 / \<bar>x\<bar>\<rceil> - 1)"
  have x: "0 < \<bar>x\<bar>" using assms by simp
  have "1 < 1 / \<bar>x\<bar>" using False x by (simp add: field_simps)
  then have c2: "2 \<le> \<lceil>1 / \<bar>x\<bar>\<rceil>" by linarith
  then have ik: "int (k + 1) = \<lceil>1 / \<bar>x\<bar>\<rceil>" unfolding k_def by linarith
  have "1 / \<bar>x\<bar> \<le> of_int \<lceil>1 / \<bar>x\<bar>\<rceil>" by linarith
  also have "of_int \<lceil>1 / \<bar>x\<bar>\<rceil> = (of_nat (k + 1) :: rat)"
    unfolding ik [symmetric] by (rule of_int_of_nat_eq)
  also have "(of_nat (k + 1) :: rat) \<le> 2 ^ bit_length k"
  proof -
    have "k + 1 \<le> 2 ^ bit_length k" using bit_length_upper [of k] by simp
    then show ?thesis by (metis of_nat_le_iff of_nat_numeral of_nat_power)
  qed
  finally have "1 / \<bar>x\<bar> \<le> 2 ^ bit_length k" .
  then have d: "1 / 2 ^ bit_length k \<le> \<bar>x\<bar>" using x by (simp add: field_simps)
  have e: "f32_exponent x = - int (bit_length k)"
    using False by (simp add: f32_exponent_def k_def)
  have "(2::rat) powi (- int (bit_length k)) = 1 / 2 ^ bit_length k"
    by (simp add: power_int_minus divide_inverse)
  then show ?thesis unfolding e using d by simp
qed

lemma f32_round_error: "\<bar>f32_round x - x\<bar> \<le> \<bar>x\<bar> / 2 ^ 24"
proof (cases "x = 0")
  case True
  then show ?thesis by (simp add: f32_round_def)
next
  case False
  define u :: rat where "u = 2 powi (f32_exponent x - 23)"
  define r where "r = round_half_even (x / u)"
  have u0: "0 < u" by (simp add: u_def)
  have fr: "f32_round x = of_int r * u" using False by (simp add: f32_round_def Let_def u_def r_def)
  have "u = 2 powi (f32_exponent x) / 2 ^ 23"
    by (simp add: u_def power_int_diff)
  also have "\<dots> \<le> \<bar>x\<bar> / 2 ^ 23"
    using f32_exponent_le [OF False] by (simp add: divide_right_mono)
  finally have ub: "u \<le> \<bar>x\<bar> / 2 ^ 23" .
  have "of_int r * u - x = (of_int r - x / u) * u" using u0 by (simp add: field_simps)
  then have "\<bar>f32_round x - x\<bar> = \<bar>of_int r - x / u\<bar> * u"
    using u0 by (simp add: fr abs_mult)
  also have "\<dots> \<le> (1 / 2) * u"
    using round_half_even_error [of "x / u"] u0 unfolding r_def by (intro mult_right_mono) simp_all
  also have "\<dots> \<le> (1 / 2) * (\<bar>x\<bar> / 2 ^ 23)" using ub by simp
  also have "\<dots> = \<bar>x\<bar> / 2 ^ 24" by simp
  finally show ?thesis .
qed


lemma f32_sum_snoc: "f32_sum (xs @ [x]) = f32_round (f32_sum xs + x)"
  by (simp add: f32_sum_def)

lemma abs_sum_list_le: "\<bar>sum_list xs\<bar> \<le> sum_list (map abs (xs :: rat list))"
  by (induction xs) (auto intro: order_trans [OF abs_triangle_ineq])

lemma sum_list_abs_nonneg: "0 \<le> sum_list (map abs (xs :: rat list))"
  by (induction xs) auto

lemma f32_sum_error:
  "\<bar>f32_sum xs - sum_list xs\<bar> \<le> ((1 + 1 / 2 ^ 24) ^ length xs - 1) * sum_list (map abs xs)"
proof (induction xs rule: rev_induct)
  case Nil
  then show ?case by (simp add: f32_sum_def)
next
  case (snoc x xs)
  define d :: rat where "d = 1 / 2 ^ 24"
  define s where "s = f32_sum xs"
  define S where "S = sum_list xs"
  define A where "A = sum_list (map abs xs)"
  define c where "c = (1 + d) ^ length xs - 1"
  have d0: "0 \<le> d" by (simp add: d_def)
  have c0: "0 \<le> c" unfolding c_def using d0 by simp
  have A0: "0 \<le> A" unfolding A_def by (rule sum_list_abs_nonneg)
  have SA: "\<bar>S\<bar> \<le> A" unfolding S_def A_def by (rule abs_sum_list_le)
  have E: "\<bar>s - S\<bar> \<le> c * A" using snoc.IH by (simp add: s_def S_def A_def c_def d_def)
  have r: "\<bar>f32_round (s + x) - (s + x)\<bar> \<le> d * \<bar>s + x\<bar>"
    using f32_round_error [of "s + x"] by (simp add: d_def)
  have "\<bar>s + x\<bar> \<le> \<bar>s - S\<bar> + \<bar>S\<bar> + \<bar>x\<bar>" by linarith
  also have "\<dots> \<le> c * A + A + \<bar>x\<bar>" using E SA by linarith
  finally have sx: "\<bar>s + x\<bar> \<le> c * A + A + \<bar>x\<bar>" .
  have "\<bar>f32_round (s + x) - (S + x)\<bar> \<le> \<bar>f32_round (s + x) - (s + x)\<bar> + \<bar>s - S\<bar>" by linarith
  also have "\<dots> \<le> d * \<bar>s + x\<bar> + c * A" using r E by linarith
  also have "\<dots> \<le> d * (c * A + A + \<bar>x\<bar>) + c * A"
    using mult_left_mono [OF sx d0] by linarith
  also have "\<dots> \<le> ((1 + d) * c + d) * (A + \<bar>x\<bar>)"
  proof -
    have "0 \<le> c * \<bar>x\<bar>" using c0 by simp
    moreover have "0 \<le> d * c * \<bar>x\<bar>" using c0 d0 by simp
    ultimately show ?thesis by (simp add: algebra_simps)
  qed
  also have "(1 + d) * c + d = (1 + d) ^ length (xs @ [x]) - 1"
    by (simp add: c_def algebra_simps)
  finally show ?case
    by (simp add: f32_sum_snoc s_def S_def A_def d_def)
qed

lemma f32_sum_accurate: "sum_accurate n ((1 + 1 / 2 ^ 24) ^ n - 1) f32_sum"
  unfolding sum_accurate_def
proof (intro allI impI)
  fix xs :: "rat list"
  assume len: "length xs \<le> n"
  have "(1 + 1 / 2 ^ 24 :: rat) ^ length xs \<le> (1 + 1 / 2 ^ 24) ^ n"
    using len by (intro power_increasing) simp_all
  then have "((1 + 1 / 2 ^ 24) ^ length xs - 1) * sum_list (map abs xs)
           \<le> ((1 + 1 / 2 ^ 24) ^ n - 1) * sum_list (map abs xs)"
    using sum_list_abs_nonneg [of xs] by (intro mult_right_mono) simp_all
  with f32_sum_error [of xs]
  show "\<bar>f32_sum xs - sum_list xs\<bar> \<le> ((1 + 1 / 2 ^ 24) ^ n - 1) * sum_list (map abs xs)"
    by linarith
qed

lemma pipeline_with_exact:
  "build_optimized_pipeline parse rows
     = build_optimized_pipeline_with sum_list (\<lambda>xs. sum_list xs / of_nat (length xs)) parse rows"
proof -
  have "agg g = agg_with sum_list (\<lambda>xs. sum_list xs / of_nat (length xs)) g" for g :: "dims \<times> 'a lf_row list"
    by (cases g) (auto simp: agg_def agg_with_def col_sum_def col_mean_def)
  then have "(agg :: dims \<times> 'a lf_row list \<Rightarrow> 'a cube_row)
               = agg_with sum_list (\<lambda>xs. sum_list xs / of_nat (length xs))"
    by (intro ext)
  then show ?thesis
    by (simp only: build_optimized_pipeline_def build_optimized_pipeline_with_def)
qed

subsection \<open>Conservation of amount\<close>

lemma total_amount_agg_with:
  "total_amount (agg_with fsum fmean g) = fsum (non_null (map amount_clean (snd g)))"
  by (cases g) (auto simp: agg_with_def)

lemma abs_sum_list_diff_le:
  fixes f g :: "'x \<Rightarrow> 'b::linordered_field"
  shows "\<bar>sum_list (map f xs) - sum_list (map g xs)\<bar> \<le> sum_list (map (\<lambda>x. \<bar>f x - g x\<bar>) xs)"
proof (induction xs)
  case Nil
  then show ?case by simp
next
  case (Cons x xs)
  have "\<bar>sum_list (map f (x # xs)) - sum_list (map g (x # xs))\<bar>
      = \<bar>(f x - g x) + (sum_list (map f xs) - sum_list (map g xs))\<bar>" by simp
  also have "\<dots> \<le> \<bar>f x - g x\<bar> + \<bar>sum_list (map f xs) - sum_list (map g xs)\<bar>"
    by (rule abs_triangle_ineq)
  also have "\<dots> \<le> \<bar>f x - g x\<bar> + sum_list (map (\<lambda>x. \<bar>f x - g x\<bar>) xs)"
    using Cons.IH by simp
  finally show ?case by simp
qed

lemma group_by_snd_length: "g \<in> set (group_by lf) \<Longrightarrow> length (snd g) \<le> length lf"
  by (auto simp: group_by_def)

lemma length_non_null_le: "length (non_null vs) \<le> length vs"
  by (simp add: length_non_null)

lemma sum_list_abs_non_null:
  fixes vs :: "('b::linordered_field) option list"
  shows "sum_list (map abs (non_null vs)) = sum_list (map (\<lambda>v. case v of None \<Rightarrow> 0 | Some x \<Rightarrow> \<bar>x\<bar>) vs)"
  by (induction vs) (auto simp: non_null_def List.map_filter_simps split: option.splits)

lemma parse_f32_examples:
  "parse_f32 ''0.10'' = Some (13421773 / 134217728)"
  "parse_f32 ''0.20'' = Some (13421773 / 67108864)"
  by code_simp+

lemma f32_reductions_example:
  "f32_sum [13421773 / 134217728, 13421773 / 67108864] = 5033165 / 16777216"
  "f32_mean [13421773 / 134217728, 13421773 / 67108864] = 5033165 / 33554432"
  by code_simp+

lemma f32_pipeline_example:
  "build_optimized_pipeline_with f32_sum f32_mean parse_f32 [row_010, row_020] = Inr [cube_f32]"
  by (simp add: build_optimized_pipeline_with_def agg_with_def row_010_def row_020_def cube_f32_def
      row_defs with_columns_def and_then_def cast_int_def cast_float_def str_replace_all_def
      is_fraud_expr_def is_not_null_def to_lowercase_def to_lowercase_char_def group_by_def
      group_key_def non_null_def n_unique_def List.map_filter_simps
      parse_f32_examples f32_reductions_example)

text \<open>
  C1, as amended. The \<open>total_amount\<close> of the cube rows add up to the sum of the parsed
  cleaned amounts up to the rounding of the engine's sums: when the engine's sum is
  accurate to \<open>e\<close> on lists no longer than the frame, the two differ by at most \<open>e\<close> times
  the sum of the absolute parsed amounts. (\<open>f32_sum_accurate\<close>: the left-to-right
  \<open>Float32\<close> sum of at most \<open>n\<close> values is accurate to \<open>(1 + 2 ^ -24) ^ n - 1\<close>; with exact
  sums \<open>e\<close> is 0 and the two are equal, \<open>amount_conserved_exact\<close>.)
\<close>

theorem amount_conserved_within:
  fixes parse :: "string \<Rightarrow> ('a::linordered_field) option"
  assumes "build_optimized_pipeline_with fsum fmean parse rows = Inr cube"
    and "sum_accurate (length rows) e fsum"
  shows "\<bar>sum_list (map total_amount cube) - sum_list (parsed_amounts parse rows)\<bar>
           \<le> e * sum_list (map abs (parsed_amounts parse rows))"
proof -
  let ?A = "\<lambda>g :: dims \<times> 'a lf_row list. non_null (map amount_clean (snd g))"
  from assms(1) obtain lf where lf: "frame_map (with_columns parse) rows = Inr lf"
    and cube: "cube = map (agg_with fsum fmean) (group_by lf)"
    by (auto simp: build_optimized_pipeline_with_def and_then_Inr)
  have len: "length lf = length rows" by (rule frame_map_length [OF lf])
  have tot: "sum_list (map total_amount cube) = sum_list (map (\<lambda>g. fsum (?A g)) (group_by lf))"
    by (simp add: cube comp_def total_amount_agg_with)
  have exact: "sum_list (map (\<lambda>g. sum_list (?A g)) (group_by lf)) = sum_list (parsed_amounts parse rows)"
  proof -
    have "sum_list (map (\<lambda>g. sum_list (?A g)) (group_by lf))
        = sum_list (map (\<lambda>(k, grp). sum_list (map (\<lambda>r. case amount_clean r of None \<Rightarrow> 0 | Some x \<Rightarrow> x) grp))
                      (group_by lf))"
      by (simp add: sum_list_non_null comp_def case_prod_unfold)
    also have "\<dots> = sum_list (map (\<lambda>r. case amount_clean r of None \<Rightarrow> 0 | Some x \<Rightarrow> x) lf)"
      by (rule sum_list_group_by)
    also have "\<dots> = sum_list (non_null (map amount_clean lf))"
      by (simp add: sum_list_non_null comp_def)
    also have "\<dots> = sum_list (parsed_amounts parse rows)"
      by (simp only: amounts_of_frame [OF lf] parsed_amounts_non_null)
    finally show ?thesis .
  qed
  have mass: "sum_list (map (\<lambda>g. sum_list (map abs (?A g))) (group_by lf))
                = sum_list (map abs (parsed_amounts parse rows))"
  proof -
    have "sum_list (map (\<lambda>g. sum_list (map abs (?A g))) (group_by lf))
        = sum_list (map (\<lambda>(k, grp). sum_list (map (\<lambda>r. case amount_clean r of None \<Rightarrow> 0 | Some x \<Rightarrow> \<bar>x\<bar>) grp))
                      (group_by lf))"
      by (simp add: sum_list_abs_non_null comp_def case_prod_unfold)
    also have "\<dots> = sum_list (map (\<lambda>r. case amount_clean r of None \<Rightarrow> 0 | Some x \<Rightarrow> \<bar>x\<bar>) lf)"
      by (rule sum_list_group_by)
    also have "\<dots> = sum_list (map abs (non_null (map amount_clean lf)))"
      by (simp add: sum_list_abs_non_null comp_def)
    also have "\<dots> = sum_list (map abs (parsed_amounts parse rows))"
      by (simp only: amounts_of_frame [OF lf] parsed_amounts_non_null)
    finally show ?thesis .
  qed
  have each: "\<bar>fsum (?A g) - sum_list (?A g)\<bar> \<le> e * sum_list (map abs (?A g))"
    if "g \<in> set (group_by lf)" for g
  proof -
    have "length (?A g) \<le> length (snd g)" using length_non_null_le [of "map amount_clean (snd g)"] by simp
    also have "\<dots> \<le> length rows" using group_by_snd_length [OF that] len by simp
    finally show ?thesis using assms(2) by (simp add: sum_accurate_def)
  qed
  have "\<bar>sum_list (map total_amount cube) - sum_list (parsed_amounts parse rows)\<bar>
      = \<bar>sum_list (map (\<lambda>g. fsum (?A g)) (group_by lf)) - sum_list (map (\<lambda>g. sum_list (?A g)) (group_by lf))\<bar>"
    by (simp only: tot exact)
  also have "\<dots> \<le> sum_list (map (\<lambda>g. \<bar>fsum (?A g) - sum_list (?A g)\<bar>) (group_by lf))"
    by (rule abs_sum_list_diff_le)
  also have "\<dots> \<le> sum_list (map (\<lambda>g. e * sum_list (map abs (?A g))) (group_by lf))"
    by (rule sum_list_mono) (rule each)
  also have "\<dots> = e * sum_list (map (\<lambda>g. sum_list (map abs (?A g))) (group_by lf))"
    by (simp add: sum_list_const_mult)
  also have "\<dots> = e * sum_list (map abs (parsed_amounts parse rows))"
    by (simp only: mass)
  finally show ?thesis .
qed

theorem amount_conserved_within_witness:
  "build_optimized_pipeline_with f32_sum f32_mean parse_f32 [row_010, row_020] = Inr [cube_f32]
   \<and> \<bar>sum_list (map total_amount [cube_f32]) - sum_list (parsed_amounts parse_f32 [row_010, row_020])\<bar>
        \<le> ((1 + 1 / 2 ^ 24) ^ 2 - 1) * sum_list (map abs (parsed_amounts parse_f32 [row_010, row_020]))"
proof -
  have l: "length [row_010, row_020] = 2" by simp
  have "sum_accurate (length [row_010, row_020]) ((1 + 1 / 2 ^ 24) ^ 2 - 1) f32_sum"
    unfolding l by (rule f32_sum_accurate)
  from amount_conserved_within [OF f32_pipeline_example this] f32_pipeline_example
  show ?thesis by blast
qed

text \<open>
  The claim as stated, an equality, fails in \<open>Float32\<close>: the amounts $0.10 and $0.20 of
  one group parse to 13421773 / 2^27 and 13421773 / 2^26, whose sum 40265319 / 2^27 is
  no \<open>Float32\<close> value; the group's total is the rounded 5033165 / 2^24 (0.30000001192).
\<close>

theorem amount_conserved_counterexample:
  "build_optimized_pipeline_with f32_sum f32_mean parse_f32 [row_010, row_020] = Inr [cube_f32]
   \<and> parsed_amounts parse_f32 [row_010, row_020] = [13421773 / 134217728, 13421773 / 67108864]
   \<and> sum_list (map total_amount [cube_f32]) = 5033165 / 16777216
   \<and> sum_list (parsed_amounts parse_f32 [row_010, row_020]) = 40265319 / 134217728
   \<and> sum_list (map total_amount [cube_f32]) \<noteq> sum_list (parsed_amounts parse_f32 [row_010, row_020])"
proof -
  have p: "parsed_amounts parse_f32 [row_010, row_020] = [13421773 / 134217728, 13421773 / 67108864]"
    by (simp add: parsed_amounts_def row_010_def row_020_def row_defs str_replace_all_def
        List.map_filter_simps parse_f32_examples)
  show ?thesis
    by (simp add: f32_pipeline_example p) (simp add: cube_f32_def)
qed

subsection \<open>The day of a row\<close>





end
